theory Spec2Isabelle
  imports Main "HOL-Library.AList" "HOL-Library.Char_ord" "HOL-Library.List_Lexorder"
begin

section \<open>ECS.js: the entity/component world of core.js and the system registry of systems.js\<close>

text \<open>
  The embedding follows core.js and systems.js function by function.  JavaScript objects,
  \<^verbatim>\<open>Map\<close>s and \<^verbatim>\<open>Set\<close>s keep insertion order, so all three are lists: an object and a
  \<^verbatim>\<open>Map\<close> are association lists written with \<open>AList.update\<close> (an existing key keeps its
  place, a new key goes to the end) and a \<^verbatim>\<open>Set\<close> is a list without repetition.  Mutation
  is explicit state passing: every method takes the world and returns the new one; a
  \<^verbatim>\<open>throw\<close> is the \<open>Inl\<close> branch of a sum.  Private fields \<^verbatim>\<open>_store\<close>, \<^verbatim>\<open>_cache\<close>, ... are
  written \<open>p_store\<close>, \<open>p_cache\<close>, ...  Entity ids are natural numbers.  A validator is a
  predicate on records and the function given to \<^verbatim>\<open>mutate\<close> is a function on records: both
  are taken to return and to touch nothing but the record they are given.
\<close>

subsection \<open>Values and plain objects\<close>

datatype val = VUndefined | VNull | VBool bool | VNum int | VStr string | VArr "val list"

type_synonym obj = "(string \<times> val) list"

text \<open>\<^verbatim>\<open>rec[f]\<close>: a missing property reads as \<^verbatim>\<open>undefined\<close>.\<close>

definition getProp :: "obj \<Rightarrow> string \<Rightarrow> val" where
  "getProp r f = (case map_of r f of None \<Rightarrow> VUndefined | Some v \<Rightarrow> v)"

text \<open>The left operand of \<^verbatim>\<open>??\<close> is replaced when it is \<^verbatim>\<open>null\<close> or \<^verbatim>\<open>undefined\<close>.\<close>

definition nullish :: "val \<Rightarrow> bool" where
  "nullish v = (v = VUndefined \<or> v = VNull)"

text \<open>\<^verbatim>\<open>Object.assign(tgt, src)\<close>: the own enumerable properties of \<open>src\<close>, in order, are
  assigned to \<open>tgt\<close>.\<close>

definition object_assign :: "obj \<Rightarrow> obj \<Rightarrow> obj" where
  "object_assign tgt src = fold (\<lambda>(k, v). AList.update k v) src tgt"

fun deepClone :: "val \<Rightarrow> val" where
  "deepClone (VArr vs) = VArr (map deepClone vs)"
| "deepClone v = v"

definition deepCloneObj :: "obj \<Rightarrow> obj" where
  "deepCloneObj r = map (\<lambda>(k, v). (k, deepClone v)) r"

subsection \<open>JavaScript Set and Map\<close>

definition jset_add :: "'a \<Rightarrow> 'a list \<Rightarrow> 'a list" where
  "jset_add x s = (if x \<in> set s then s else s @ [x])"

definition jset_delete :: "'a \<Rightarrow> 'a list \<Rightarrow> bool \<times> 'a list" where
  "jset_delete x s = (x \<in> set s, removeAll x s)"

definition jmap_has :: "'k \<Rightarrow> ('k \<times> 'v) list \<Rightarrow> bool" where
  "jmap_has k m = (map_of m k \<noteq> None)"

definition jmap_delete :: "'k \<Rightarrow> ('k \<times> 'v) list \<Rightarrow> bool \<times> ('k \<times> 'v) list" where
  "jmap_delete k m = (jmap_has k m, AList.delete k m)"

subsection \<open>Component descriptors\<close>

text \<open>A \<^verbatim>\<open>Symbol(name)\<close> is an identity together with its description.\<close>

datatype symbol = Symbol (sym_id: nat) (description: string)

record component =
  key :: symbol
  name :: string
  defaults :: obj
  validate :: "(obj \<Rightarrow> bool) option"

text \<open>\<^verbatim>\<open>defineComponent(name, defaults, options)\<close>; the first argument is the identity of
  the fresh symbol.\<close>

definition defineComponent :: "nat \<Rightarrow> string \<Rightarrow> obj \<Rightarrow> (obj \<Rightarrow> bool) option \<Rightarrow> component" where
  "defineComponent n nm dflt vld =
     \<lparr>key = Symbol n nm, name = nm, defaults = object_assign [] dflt, validate = vld\<rparr>"

subsection \<open>Component stores\<close>

text \<open>
  \<^verbatim>\<open>makeMapStore\<close> keeps one record object per id; its \<^verbatim>\<open>fast\<close> table holds the very same
  objects under the same ids and is read by \<^verbatim>\<open>getInstance\<close> only, so the map alone is kept.
  \<^verbatim>\<open>makeSoAStore\<close> keeps one sparse array per field of the defaults, the set \<^verbatim>\<open>present\<close>
  and the cached view objects.  A view has one accessor per field, defined with
  \<^verbatim>\<open>Object.defineProperty\<close> and therefore not enumerable; \<open>views\<close> records, per id, the
  own data properties that were assigned to the view besides those accessors.
\<close>

record soa =
  sfields :: "string list"
  sdefaults :: obj
  arrays :: "(string \<times> (nat \<times> val) list) list"
  present :: "nat list"
  views :: "(nat \<times> obj) list"

datatype store = MapStore "(nat \<times> obj) list" | SoAStore soa

definition makeMapStore :: store where
  "makeMapStore = MapStore []"

definition makeSoAStore :: "component \<Rightarrow> store" where
  "makeSoAStore Comp =
     SoAStore \<lparr>sfields = map fst (defaults Comp), sdefaults = defaults Comp,
               arrays = map (\<lambda>f. (f, [])) (map fst (defaults Comp)),
               present = [], views = []\<rparr>"

text \<open>What a caller holds after \<^verbatim>\<open>store.get(id)\<close>: the record object itself, or a view
  (the values its accessors read, and its own data properties).\<close>

datatype handle = Plain obj | View obj obj

text \<open>The own enumerable properties, which is what \<^verbatim>\<open>Object.assign({}, rec)\<close> copies.\<close>

fun enumerable :: "handle \<Rightarrow> obj" where
  "enumerable (Plain r) = r"
| "enumerable (View fv ex) = ex"

text \<open>Every property a caller can read from the handle.\<close>

fun readable :: "handle \<Rightarrow> obj" where
  "readable (Plain r) = r"
| "readable (View fv ex) = object_assign fv ex"

text \<open>\<^verbatim>\<open>arrays[f][id]\<close> and \<^verbatim>\<open>arrays[f][id] = v\<close>.\<close>

definition arr_read :: "(string \<times> (nat \<times> val) list) list \<Rightarrow> string \<Rightarrow> nat \<Rightarrow> val" where
  "arr_read arrs f i =
     (case map_of arrs f of None \<Rightarrow> VUndefined
      | Some a \<Rightarrow> (case map_of a i of None \<Rightarrow> VUndefined | Some v \<Rightarrow> v))"

definition arr_write ::
  "string \<Rightarrow> nat \<Rightarrow> val \<Rightarrow> (string \<times> (nat \<times> val) list) list \<Rightarrow> (string \<times> (nat \<times> val) list) list" where
  "arr_write f i v arrs = AList.map_entry f (AList.update i v) arrs"

text \<open>The getter of a view: \<^verbatim>\<open>arrays[f][id] ?? Comp.defaults[f]\<close>.\<close>

definition view_get :: "soa \<Rightarrow> nat \<Rightarrow> string \<Rightarrow> val" where
  "view_get s i f =
     (if nullish (arr_read (arrays s) f i) then getProp (sdefaults s) f else arr_read (arrays s) f i)"

definition view_extras :: "soa \<Rightarrow> nat \<Rightarrow> obj" where
  "view_extras s i = (case map_of (views s) i of None \<Rightarrow> [] | Some ex \<Rightarrow> ex)"

fun store_set :: "nat \<Rightarrow> obj \<Rightarrow> store \<Rightarrow> store" where
  "store_set i r (MapStore m) = MapStore (AList.update i r m)"
| "store_set i r (SoAStore s) =
     SoAStore (s\<lparr>present := jset_add i (present s),
                 arrays := fold (\<lambda>f. arr_write f i
                                  (if nullish (getProp r f) then getProp (sdefaults s) f else getProp r f))
                            (sfields s) (arrays s)\<rparr>)"

text \<open>\<^verbatim>\<open>store.get(id)\<close>; the columnar store creates and caches the view on first use.\<close>

fun store_get :: "nat \<Rightarrow> store \<Rightarrow> handle option \<times> store" where
  "store_get i (MapStore m) = (map_option Plain (map_of m i), MapStore m)"
| "store_get i (SoAStore s) =
     (if i \<in> set (present s)
      then (Some (View (map (\<lambda>f. (f, view_get s i f)) (sfields s)) (view_extras s i)),
            SoAStore (if jmap_has i (views s) then s
                      else s\<lparr>views := AList.update i [] (views s)\<rparr>))
      else (None, SoAStore s))"

fun store_has :: "nat \<Rightarrow> store \<Rightarrow> bool" where
  "store_has i (MapStore m) = jmap_has i m"
| "store_has i (SoAStore s) = (i \<in> set (present s))"

fun store_delete :: "nat \<Rightarrow> store \<Rightarrow> bool \<times> store" where
  "store_delete i (MapStore m) = (fst (jmap_delete i m), MapStore (snd (jmap_delete i m)))"
| "store_delete i (SoAStore s) =
     (fst (jset_delete i (present s)),
      SoAStore (s\<lparr>present := snd (jset_delete i (present s)),
                  views := snd (jmap_delete i (views s))\<rparr>))"

fun entityIds :: "store \<Rightarrow> nat list" where
  "entityIds (MapStore m) = sort (map fst m)"
| "entityIds (SoAStore s) = sort (present s)"

text \<open>\<^verbatim>\<open>Object.assign(rec, patch)\<close> on the object the store holds for \<open>i\<close>: a record
  object takes every property; on a view a field name runs the setter
  (\<^verbatim>\<open>arrays[f][id] = v\<close>) and any other name becomes an own property of the view.\<close>

definition view_assign :: "nat \<Rightarrow> string \<times> val \<Rightarrow> soa \<Rightarrow> soa" where
  "view_assign i kv s =
     (if fst kv \<in> set (sfields s)
      then s\<lparr>arrays := arr_write (fst kv) i (snd kv) (arrays s)\<rparr>
      else s\<lparr>views := AList.update i (AList.update (fst kv) (snd kv) (view_extras s i)) (views s)\<rparr>)"

fun store_assign :: "nat \<Rightarrow> obj \<Rightarrow> store \<Rightarrow> store" where
  "store_assign i patch (MapStore m) =
     MapStore (AList.map_entry i (\<lambda>r. object_assign r patch) m)"
| "store_assign i patch (SoAStore s) = SoAStore (fold (view_assign i) patch s)"

text \<open>\<^verbatim>\<open>fn(rec)\<close>, an in-place edit by a caller's function.  The function is taken as a
  pure map from the properties it can read to the properties it leaves; on a view the
  result is written back through the accessors.\<close>

fun store_edit :: "nat \<Rightarrow> (obj \<Rightarrow> obj) \<Rightarrow> store \<Rightarrow> store" where
  "store_edit i fn (MapStore m) = MapStore (AList.map_entry i fn m)"
| "store_edit i fn (SoAStore s) =
     SoAStore (fold (view_assign i)
                 (fn (readable (View (map (\<lambda>f. (f, view_get s i f)) (sfields s)) (view_extras s i))))
                 (s\<lparr>views := AList.update i [] (views s)\<rparr>))"

subsection \<open>Queries, deferred operations and the calls a closure makes\<close>

text \<open>A query term: a component, \<^verbatim>\<open>Not(Comp)\<close>, \<^verbatim>\<open>Changed(Comp)\<close>, or a falsy value, which
  \<^verbatim>\<open>normalizeTerms\<close> skips.\<close>

datatype qterm = TComp component | TNot component | TChanged component | TFalsy

text \<open>
  An entry of the command queue is an operation descriptor (\<^verbatim>\<open>['destroy', id]\<close>, ...) or a
  function.  A closure handed to the world (a function command, the scheduler, the
  \<^verbatim>\<open>onTick\<close> hook) is taken as the list of World calls it makes, in order; it ends at
  the first call that throws, as the exception leaves the closure there.
\<close>

datatype op =
    OpDestroy nat
  | OpAdd nat component obj
  | OpRemove nat component
  | OpSet nat component obj
  | OpMutate nat component "obj \<Rightarrow> obj"
  | OpFn "call list"
and call =
    Create
  | Destroy nat
  | Add nat component obj
  | Remove nat component
  | SetRec nat component obj
  | Mutate nat component "obj \<Rightarrow> obj"
  | Get nat component
  | Has nat component
  | Query "qterm list"
  | Command op

datatype error =
    NotAlive
  | ValidationFailed string
  | MissingComponent
  | IllegalMutationDuringTick
  | NoScheduler

datatype ret =
    RUndefined
  | RNull
  | RBool bool
  | RId nat
  | RObj obj
  | RRec handle
  | RRows "(nat \<times> handle option list) list"
  | RThis

subsection \<open>The world\<close>

text \<open>A method returns the world it leaves together with what it returns or throws: what
  it changed before a \<^verbatim>\<open>throw\<close> stays changed.\<close>

record world =
  scheduler :: "call list option"
  onTick :: "call list option"
  storeMode :: string
  p_store :: "(symbol \<times> store) list"
  p_cache :: "(string \<times> nat list) list"
  p_changed :: "(symbol \<times> nat list) list"
  p_cmd :: "op list"
  p_free :: "nat list"
  p_nextId :: nat
  alive :: "nat list"
  p_inTick :: bool
  strict :: bool
  time :: int
  step :: nat

text \<open>\<^verbatim>\<open>new World(opts)\<close> with \<^verbatim>\<open>opts.store\<close> (the empty string for none), \<^verbatim>\<open>opts.strict\<close>
  and \<^verbatim>\<open>opts.onTick\<close>.  The seed, the generator, the debug flag and the event listeners
  are read by no method below.\<close>

definition new_World :: "string \<Rightarrow> bool \<Rightarrow> call list option \<Rightarrow> world" where
  "new_World mode str hook =
     \<lparr>scheduler = None, onTick = hook, storeMode = (if mode = [] then ''map'' else mode),
      p_store = [], p_cache = [],
      p_changed = [], p_cmd = [], p_free = [], p_nextId = 1, alive = [], p_inTick = False,
      strict = str, time = 0, step = 0\<rparr>"

definition setScheduler :: "call list \<Rightarrow> world \<Rightarrow> world" where
  "setScheduler fn w = w\<lparr>scheduler := Some fn\<rparr>"

definition command :: "op \<Rightarrow> world \<Rightarrow> world" where
  "command opOrFn w = w\<lparr>p_cmd := p_cmd w @ [opOrFn]\<rparr>"

definition invalidateCaches :: "world \<Rightarrow> world" where
  "invalidateCaches w = w\<lparr>p_cache := []\<rparr>"

definition create :: "world \<Rightarrow> nat \<times> world" where
  "create w =
     (if p_free w \<noteq> []
      then (last (p_free w),
            w\<lparr>p_free := butlast (p_free w), alive := jset_add (last (p_free w)) (alive w)\<rparr>)
      else (p_nextId w,
            w\<lparr>p_nextId := p_nextId w + 1, alive := jset_add (p_nextId w) (alive w)\<rparr>))"

definition isAlive :: "nat \<Rightarrow> world \<Rightarrow> bool" where
  "isAlive i w = (i \<in> set (alive w))"

text \<open>\<^verbatim>\<open>_markChanged(ckey, id)\<close>, on the change table.\<close>

definition mark :: "symbol \<Rightarrow> nat \<Rightarrow> (symbol \<times> nat list) list \<Rightarrow> (symbol \<times> nat list) list" where
  "mark ckey i ch =
     (case map_of ch ckey of
        None \<Rightarrow> AList.update ckey [i] ch
      | Some s \<Rightarrow> AList.update ckey (jset_add i s) ch)"

definition markChanged :: "symbol \<Rightarrow> nat \<Rightarrow> world \<Rightarrow> world" where
  "markChanged ckey i w = w\<lparr>p_changed := mark ckey i (p_changed w)\<rparr>"

text \<open>\<^verbatim>\<open>changed(id, Comp)\<close>.\<close>

definition changed :: "nat \<Rightarrow> component \<Rightarrow> world \<Rightarrow> bool" where
  "changed i Comp w =
     (case map_of (p_changed w) (key Comp) of None \<Rightarrow> False | Some s \<Rightarrow> i \<in> set s)"

text \<open>\<^verbatim>\<open>_mapFor(Comp)\<close>: the store of the component, created and registered on first use.\<close>

definition mapFor :: "component \<Rightarrow> world \<Rightarrow> store \<times> world" where
  "mapFor Comp w =
     (case map_of (p_store w) (key Comp) of
        Some st \<Rightarrow> (st, w)
      | None \<Rightarrow>
          (let st = (if storeMode w = ''soa'' then makeSoAStore Comp else makeMapStore)
           in (st, w\<lparr>p_store := AList.update (key Comp) st (p_store w)\<rparr>)))"

text \<open>A store is an object the table refers to: a method that changes it changes the
  table's entry.\<close>

definition put_store :: "symbol \<Rightarrow> store \<Rightarrow> world \<Rightarrow> world" where
  "put_store k st w = w\<lparr>p_store := AList.update k st (p_store w)\<rparr>"

text \<open>The loop of \<^verbatim>\<open>destroy\<close> over the store table:
  \<^verbatim>\<open>for (const [k, store] of this._store) { if (store.delete(id)) this._markChanged(k, id); }\<close>\<close>

fun purge ::
  "nat \<Rightarrow> (symbol \<times> store) list \<Rightarrow> (symbol \<times> nat list) list \<Rightarrow>
   (symbol \<times> store) list \<times> (symbol \<times> nat list) list" where
  "purge i [] ch = ([], ch)"
| "purge i ((k, st) # rest) ch =
     (let ch1 = (if fst (store_delete i st) then mark k i ch else ch);
          r = purge i rest ch1
      in ((k, snd (store_delete i st)) # fst r, snd r))"

definition destroy :: "nat \<Rightarrow> world \<Rightarrow> (error + ret) \<times> world" where
  "destroy i w =
     (if i \<notin> set (alive w) then (Inr (RBool False), w)
      else if p_inTick w then
        (if strict w then (Inl IllegalMutationDuringTick, w)
         else (Inr RNull, command (OpDestroy i) w))
      else
        (let r = purge i (p_store w) (p_changed w);
             w1 = w\<lparr>p_store := fst r, p_changed := snd r\<rparr>;
             w2 = w1\<lparr>alive := snd (jset_delete i (alive w1)), p_free := p_free w1 @ [i]\<rparr>
         in (Inr (RBool True), invalidateCaches w2)))"

text \<open>\<^verbatim>\<open>typeof Comp.validate === 'function' && !Comp.validate(rec)\<close>\<close>

definition rejects :: "component \<Rightarrow> obj \<Rightarrow> bool" where
  "rejects Comp r = (case validate Comp of None \<Rightarrow> False | Some v \<Rightarrow> \<not> v r)"

definition add :: "nat \<Rightarrow> component \<Rightarrow> obj \<Rightarrow> world \<Rightarrow> (error + ret) \<times> world" where
  "add i Comp data w =
     (if i \<notin> set (alive w) then (Inl NotAlive, w)
      else if p_inTick w then
        (if strict w then (Inl IllegalMutationDuringTick, w)
         else (Inr RNull, command (OpAdd i Comp data) w))
      else
        (let r = object_assign (object_assign [] (deepCloneObj (defaults Comp))) (deepCloneObj data)
         in if rejects Comp r then (Inl (ValidationFailed (name Comp)), w)
            else
              (let m = mapFor Comp w;
                   w1 = put_store (key Comp) (store_set i r (fst m)) (snd m);
                   w2 = markChanged (key Comp) i w1
               in (Inr (RObj r), invalidateCaches w2))))"

definition get :: "nat \<Rightarrow> component \<Rightarrow> world \<Rightarrow> handle option \<times> world" where
  "get i Comp w =
     (let m = mapFor Comp w; g = store_get i (fst m)
      in (fst g, put_store (key Comp) (snd g) (snd m)))"

definition has :: "nat \<Rightarrow> component \<Rightarrow> world \<Rightarrow> bool \<times> world" where
  "has i Comp w = (let m = mapFor Comp w in (store_has i (fst m), snd m))"

definition remove :: "nat \<Rightarrow> component \<Rightarrow> world \<Rightarrow> (error + ret) \<times> world" where
  "remove i Comp w =
     (if p_inTick w then
        (if strict w then (Inl IllegalMutationDuringTick, w)
         else (Inr RNull, command (OpRemove i Comp) w))
      else
        (let m = mapFor Comp w; d = store_delete i (fst m);
             w1 = put_store (key Comp) (snd d) (snd m)
         in if fst d then (Inr (RBool True), invalidateCaches (markChanged (key Comp) i w1))
            else (Inr (RBool False), w1)))"

text \<open>\<^verbatim>\<open>set(id, Comp, patch)\<close>.  The record it returns is the object \<^verbatim>\<open>rec\<close> it patched,
  given here with the properties it has after the patch.\<close>

definition setRec :: "nat \<Rightarrow> component \<Rightarrow> obj \<Rightarrow> world \<Rightarrow> (error + ret) \<times> world" where
  "setRec i Comp patch w =
     (if p_inTick w then
        (if strict w then (Inl IllegalMutationDuringTick, w)
         else (Inr RNull, command (OpSet i Comp patch) w))
      else
        (let g = get i Comp w; w1 = snd g
         in case fst g of
              None \<Rightarrow> (Inl MissingComponent, w1)
            | Some h \<Rightarrow>
                (let next = object_assign (object_assign [] (enumerable h)) patch
                 in if rejects Comp next then (Inl (ValidationFailed (name Comp)), w1)
                    else
                      (let st = store_assign i patch (fst (mapFor Comp w1));
                           w2 = markChanged (key Comp) i (put_store (key Comp) st w1)
                       in (Inr (case fst (store_get i st) of Some h' \<Rightarrow> RRec h' | None \<Rightarrow> RRec h),
                           w2)))))"

definition mutate :: "nat \<Rightarrow> component \<Rightarrow> (obj \<Rightarrow> obj) \<Rightarrow> world \<Rightarrow> (error + ret) \<times> world" where
  "mutate i Comp fn w =
     (if p_inTick w then
        (if strict w then (Inl IllegalMutationDuringTick, w)
         else (Inr RNull, command (OpMutate i Comp fn) w))
      else
        (let g = get i Comp w; w1 = snd g
         in case fst g of
              None \<Rightarrow> (Inl MissingComponent, w1)
            | Some h \<Rightarrow>
                (let st = store_edit i fn (fst (mapFor Comp w1));
                     w2 = markChanged (key Comp) i (put_store (key Comp) st w1)
                 in (Inr (case fst (store_get i st) of Some h' \<Rightarrow> RRec h' | None \<Rightarrow> RRec h),
                     w2))))"

subsection \<open>Queries\<close>

record qspec =
  s_all :: "component list"
  s_none :: "component list"
  s_changed :: "component list"
  cacheKey :: string

fun join :: "string \<Rightarrow> string list \<Rightarrow> string" where
  "join sep [] = []"
| "join sep [x] = x"
| "join sep (x # y # ys) = x @ sep @ join sep (y # ys)"

fun positive :: "qterm list \<Rightarrow> component list" where
  "positive [] = []"
| "positive (TComp c # ts) = c # positive ts"
| "positive (t # ts) = positive ts"

fun negated :: "qterm list \<Rightarrow> component list" where
  "negated [] = []"
| "negated (TNot c # ts) = c # negated ts"
| "negated (t # ts) = negated ts"

fun changed_terms :: "qterm list \<Rightarrow> component list" where
  "changed_terms [] = []"
| "changed_terms (TChanged c # ts) = c # changed_terms ts"
| "changed_terms (t # ts) = changed_terms ts"

text \<open>\<^verbatim>\<open>all.map(c => c.key.description || 'c').sort().join('|') || '*'\<close>\<close>

definition cache_key :: "component list \<Rightarrow> string" where
  "cache_key cs =
     (let joined = join ''|'' (sort (map (\<lambda>c. if description (key c) = [] then ''c''
                                                else description (key c)) cs))
      in if joined = [] then ''*'' else joined)"

definition normalizeTerms :: "qterm list \<Rightarrow> qspec" where
  "normalizeTerms terms =
     \<lparr>s_all = positive terms, s_none = negated terms, s_changed = changed_terms terms,
      cacheKey = cache_key (positive terms)\<rparr>"

text \<open>The two indices of \<^verbatim>\<open>intersectSorted\<close> are the two remaining suffixes.\<close>

fun intersectSorted :: "nat list \<Rightarrow> nat list \<Rightarrow> nat list" where
  "intersectSorted [] b = []"
| "intersectSorted (A # as) [] = []"
| "intersectSorted (A # as) (B # bs) =
     (if A = B then A # intersectSorted as bs
      else if A < B then intersectSorted as (B # bs)
      else intersectSorted (A # as) bs)"

text \<open>The loop of \<^verbatim>\<open>_cachedEntityList\<close> over \<^verbatim>\<open>spec.all\<close>; \<open>None\<close> is the initial
  \<^verbatim>\<open>null\<close> of \<^verbatim>\<open>result\<close>, and the loop is left as soon as the result is empty.\<close>

fun inter_loop :: "component list \<Rightarrow> nat list option \<Rightarrow> world \<Rightarrow> nat list option \<times> world" where
  "inter_loop [] res w = (res, w)"
| "inter_loop (c # cs) res w =
     (let m = mapFor c w; arr = entityIds (fst m);
          res1 = (case res of None \<Rightarrow> arr | Some r \<Rightarrow> intersectSorted r arr)
      in if res1 = [] then (Some res1, snd m) else inter_loop cs (Some res1) (snd m))"

definition cachedEntityList :: "qspec \<Rightarrow> string \<Rightarrow> world \<Rightarrow> nat list \<times> world" where
  "cachedEntityList spec k w =
     (case map_of (p_cache w) k of
        Some l \<Rightarrow> (l, w)
      | None \<Rightarrow>
          (let r = inter_loop (s_all spec) None w; w1 = snd r;
               result = (if s_all spec = [] then sort (alive w1)
                         else (case fst r of None \<Rightarrow> [] | Some l \<Rightarrow> l))
           in (result, w1\<lparr>p_cache := AList.update k result (p_cache w1)\<rparr>)))"

text \<open>\<^verbatim>\<open>passesDynamicFilters\<close>: the loop over \<^verbatim>\<open>spec.none\<close> calls \<^verbatim>\<open>world.has\<close>, the loop
  over \<^verbatim>\<open>spec.changed\<close> calls \<^verbatim>\<open>world.changed\<close>.\<close>

fun none_pass :: "nat \<Rightarrow> component list \<Rightarrow> world \<Rightarrow> bool \<times> world" where
  "none_pass i [] w = (True, w)"
| "none_pass i (c # cs) w =
     (let h = has i c w in if fst h then (False, snd h) else none_pass i cs (snd h))"

definition passesDynamicFilters :: "world \<Rightarrow> nat \<Rightarrow> qspec \<Rightarrow> bool \<times> world" where
  "passesDynamicFilters w i spec =
     (let n = none_pass i (s_none spec) w
      in if \<not> fst n then (False, snd n)
         else (list_all (\<lambda>c. changed i c (snd n)) (s_changed spec), snd n))"

text \<open>\<^verbatim>\<open>spec.all.map(c => this.get(id, c))\<close>\<close>

fun get_each :: "nat \<Rightarrow> component list \<Rightarrow> world \<Rightarrow> handle option list \<times> world" where
  "get_each i [] w = ([], w)"
| "get_each i (c # cs) w =
     (let g = get i c w; r = get_each i cs (snd g) in (fst g # fst r, snd r))"

text \<open>The generator over the base list, run to its end at once.\<close>

fun tuples :: "qspec \<Rightarrow> nat list \<Rightarrow> world \<Rightarrow> (nat \<times> handle option list) list \<times> world" where
  "tuples spec [] w = ([], w)"
| "tuples spec (i # is) w =
     (let p = passesDynamicFilters w i spec
      in if \<not> fst p then tuples spec is (snd p)
         else (let g = get_each i (s_all spec) (snd p); r = tuples spec is (snd g)
               in ((i, fst g) # fst r, snd r)))"

text \<open>\<^verbatim>\<open>query(...terms)\<close> without an options object, and \<^verbatim>\<open>queryGen(...terms)\<close>.\<close>

definition query :: "qterm list \<Rightarrow> world \<Rightarrow> (nat \<times> handle option list) list \<times> world" where
  "query terms w =
     (let spec = normalizeTerms terms; l = cachedEntityList spec (cacheKey spec) w
      in tuples spec (fst l) (snd l))"

subsection \<open>Closures, deferred operations and the tick\<close>

fun exec :: "call \<Rightarrow> world \<Rightarrow> (error + ret) \<times> world" where
  "exec Create w = (Inr (RId (fst (create w))), snd (create w))"
| "exec (Destroy i) w = destroy i w"
| "exec (Add i c d) w = add i c d w"
| "exec (Remove i c) w = remove i c w"
| "exec (SetRec i c p) w = setRec i c p w"
| "exec (Mutate i c f) w = mutate i c f w"
| "exec (Get i c) w =
     (Inr (case fst (get i c w) of None \<Rightarrow> RNull | Some h \<Rightarrow> RRec h), snd (get i c w))"
| "exec (Has i c) w = (Inr (RBool (fst (has i c w))), snd (has i c w))"
| "exec (Query ts) w = (Inr (RRows (fst (query ts w))), snd (query ts w))"
| "exec (Command c) w = (Inr RThis, command c w)"

text \<open>A closure runs its calls in order and is left at the first one that throws.\<close>

fun run_calls :: "call list \<Rightarrow> world \<Rightarrow> error option \<times> world" where
  "run_calls [] w = (None, w)"
| "run_calls (c # cs) w =
     (case fst (exec c w) of
        Inl e \<Rightarrow> (Some e, snd (exec c w))
      | Inr r \<Rightarrow> run_calls cs (snd (exec c w)))"

text \<open>\<^verbatim>\<open>_applyOp(op)\<close>: the whole body is inside \<^verbatim>\<open>try { ... } catch (e) { console.warn(...) }\<close>,
  so only the world it leaves is kept.\<close>

fun applyOp :: "op \<Rightarrow> world \<Rightarrow> world" where
  "applyOp (OpFn f) w = snd (run_calls f w)"
| "applyOp (OpDestroy i) w = snd (destroy i w)"
| "applyOp (OpAdd i c d) w = snd (add i c d w)"
| "applyOp (OpRemove i c) w = snd (remove i c w)"
| "applyOp (OpSet i c p) w = snd (setRec i c p w)"
| "applyOp (OpMutate i c f) w = snd (mutate i c f w)"


text \<open>The bounded flush at the end of \<^verbatim>\<open>tick\<close>.\<close>

definition MAX_ops :: nat where
  "MAX_ops = 1000"

definition flush :: "world \<Rightarrow> world" where
  "flush w =
     (if p_cmd w = [] then w
      else
        (let cmds = p_cmd w; w1 = w\<lparr>p_cmd := []\<rparr>;
             limit = min MAX_ops (length cmds);
             prev = p_inTick w1;
             w2 = fold applyOp (take limit cmds) (w1\<lparr>p_inTick := False\<rparr>);
             w3 = w2\<lparr>p_inTick := prev\<rparr>
         in if length cmds > limit then w3\<lparr>p_cmd := p_cmd w3 @ drop limit cmds\<rparr> else w3))"

text \<open>\<^verbatim>\<open>tick(dt)\<close>.  An error of the scheduler and an error of the \<^verbatim>\<open>onTick\<close> hook are
  caught and logged; the elapsed wall time the hook is given is not modelled.\<close>

definition tick :: "int \<Rightarrow> world \<Rightarrow> (error + ret) \<times> world" where
  "tick dt w =
     (case scheduler w of
        None \<Rightarrow> (Inl NoScheduler, w)
      | Some sch \<Rightarrow>
          (let w1 = w\<lparr>time := time w + dt, step := step w + 1, p_inTick := True\<rparr>;
               w2 = snd (run_calls sch w1);
               w3 = flush w2;
               w4 = w3\<lparr>p_changed := [], p_inTick := False\<rparr>
           in (Inr RUndefined,
               (case onTick w4 of None \<Rightarrow> w4 | Some hook \<Rightarrow> snd (run_calls hook w4)))))"

subsection \<open>systems.js: registration and ordering of systems\<close>

text \<open>A system is a function, compared by identity: a number stands for it.  The two
  module tables \<^verbatim>\<open>_systems\<close> and \<^verbatim>\<open>_explicitOrder\<close> are the fields of one registry.\<close>

record sysrec =
  system :: nat
  before :: "nat list"
  after :: "nat list"

record registry =
  p_systems :: "(string \<times> sysrec list) list"
  p_explicitOrder :: "(string \<times> nat list) list"

datatype reg_error = PhaseNotAString

text \<open>\<^verbatim>\<open>new Set(array)\<close>\<close>

definition new_Set :: "'a list \<Rightarrow> 'a list" where
  "new_Set xs = fold jset_add xs []"

definition registerSystem ::
  "nat \<Rightarrow> string \<Rightarrow> nat list \<Rightarrow> nat list \<Rightarrow> registry \<Rightarrow> reg_error + registry" where
  "registerSystem sys phase bef aft R =
     (if phase = [] then Inl PhaseNotAString
      else
        (let r = \<lparr>system = sys, before = new_Set bef, after = new_Set aft\<rparr>;
             old = (case map_of (p_systems R) phase of None \<Rightarrow> [] | Some rs \<Rightarrow> rs)
         in Inr (R\<lparr>p_systems := AList.update phase (old @ [r]) (p_systems R)\<rparr>)))"


text \<open>The graph of \<^verbatim>\<open>getOrderedSystems\<close>: a \<^verbatim>\<open>Map\<close> from a system to the \<^verbatim>\<open>Set\<close> of the
  systems that must run after it.\<close>

type_synonym graph = "(nat \<times> nat list) list"

text \<open>\<^verbatim>\<open>nodes.forEach(({ system }) => graph.set(system, new Set()))\<close>\<close>

definition graph_nodes :: "sysrec list \<Rightarrow> graph" where
  "graph_nodes nodes = fold (\<lambda>r. AList.update (system r) []) nodes []"

text \<open>The second \<^verbatim>\<open>forEach\<close>: the edges of one record, \<^verbatim>\<open>after\<close> first.\<close>

definition add_edges :: "sysrec \<Rightarrow> graph \<Rightarrow> graph" where
  "add_edges r g =
     (let g1 = fold (\<lambda>dep g. if jmap_has dep g then AList.map_entry dep (jset_add (system r)) g
                               else g) (after r) g
      in fold (\<lambda>dep g. if jmap_has dep g then AList.map_entry (system r) (jset_add dep) g
                          else g) (before r) g1)"

definition build_graph :: "sysrec list \<Rightarrow> graph" where
  "build_graph nodes = fold add_edges nodes (graph_nodes nodes)"

text \<open>\<^verbatim>\<open>graph.get(n) || []\<close>\<close>

definition succs :: "graph \<Rightarrow> nat \<Rightarrow> nat list" where
  "succs g n = (case map_of g n of None \<Rightarrow> [] | Some ms \<Rightarrow> ms)"

text \<open>
  \<^verbatim>\<open>dfs\<close> and the two loops that call it.  The state is the pair of \<^verbatim>\<open>visited\<close> and
  \<^verbatim>\<open>out\<close>; \<open>dfs_list g ns s\<close> is \<^verbatim>\<open>for (const n of ns) dfs(n)\<close> from the state \<open>s\<close>, so
  that the body of \<^verbatim>\<open>dfs(n)\<close> is the second equation with \<open>ns = []\<close>.
\<close>

function (sequential) dfs_list :: "graph \<Rightarrow> nat list \<Rightarrow> nat list \<times> nat list \<Rightarrow> nat list \<times> nat list" where
  "dfs_list g [] s = s"
| "dfs_list g (n # ns) s =
     (if n \<in> set (fst s) then dfs_list g ns s
      else (let s1 = dfs_list g (succs g n) (jset_add n (fst s), snd s)
            in dfs_list g ns (fst s1, snd s1 @ [n])))"
  by pat_completeness auto

lemma dfs_list_mono:
  "dfs_list_dom (g, ns, s) \<Longrightarrow> set (fst s) \<subseteq> set (fst (dfs_list g ns s))"
proof (induction g ns s rule: dfs_list.pinduct)
  case (1 g s)
  then show ?case by (simp add: dfs_list.psimps)
next
  case (2 g n ns s)
  show ?case
  proof (cases "n \<in> set (fst s)")
    case True
    with 2 show ?thesis by (simp add: dfs_list.psimps)
  next
    case False
    let ?s1 = "dfs_list g (succs g n) (jset_add n (fst s), snd s)"
    from 2(3)[OF False] have a: "set (fst (jset_add n (fst s), snd s)) \<subseteq> set (fst ?s1)" .
    from 2(4)[OF False refl]
    have b: "set (fst (fst ?s1, snd ?s1 @ [n])) \<subseteq> set (fst (dfs_list g ns (fst ?s1, snd ?s1 @ [n])))" .
    have "set (fst s) \<subseteq> set (jset_add n (fst s))" by (auto simp: jset_add_def)
    with a b False 2(1) show ?thesis by (auto simp: dfs_list.psimps Let_def)
  qed
qed

termination dfs_list
proof (relation "(\<lambda>(g, ns, s). card (set (map fst g) - set (fst s))) <*mlex*>
                 measure (\<lambda>(g, ns, s). length ns)")
  show "wf ((\<lambda>(g, ns, s). card (set (map fst g) - set (fst s))) <*mlex*>
            measure (\<lambda>(g, ns, s). length ns))"
    by (simp add: wf_mlex)
next
  fix g :: graph and n ns and s :: "nat list \<times> nat list"
  assume "n \<in> set (fst s)"
  then show "((g, ns, s), (g, n # ns, s)) \<in>
      (\<lambda>(g, ns, s). card (set (map fst g) - set (fst s))) <*mlex*> measure (\<lambda>(g, ns, s). length ns)"
    by (simp add: mlex_iff)
next
  fix g :: graph and n ns and s :: "nat list \<times> nat list"
  assume nv: "n \<notin> set (fst s)"
  show "((g, succs g n, jset_add n (fst s), snd s), (g, n # ns, s)) \<in>
      (\<lambda>(g, ns, s). card (set (map fst g) - set (fst s))) <*mlex*> measure (\<lambda>(g, ns, s). length ns)"
  proof (cases "n \<in> set (map fst g)")
    case True
    have "set (map fst g) - set (jset_add n (fst s)) \<subset> set (map fst g) - set (fst s)"
      using True nv by (auto simp: jset_add_def)
    then have "card (set (map fst g) - set (jset_add n (fst s))) < card (set (map fst g) - set (fst s))"
      by (intro psubset_card_mono) auto
    then show ?thesis by (simp add: mlex_iff)
  next
    case False
    then have "map_of g n = None" by (simp add: map_of_eq_None_iff)
    then have e: "succs g n = []" by (simp add: succs_def)
    have "set (map fst g) - set (jset_add n (fst s)) = set (map fst g) - set (fst s)"
      using False by (auto simp: jset_add_def)
    with e show ?thesis by (simp add: mlex_iff)
  qed
next
  fix g :: graph and n ns and s s1 :: "nat list \<times> nat list"
  assume nv: "n \<notin> set (fst s)" and s1: "s1 = dfs_list g (succs g n) (jset_add n (fst s), snd s)"
    and dom: "dfs_list_dom (g, succs g n, jset_add n (fst s), snd s)"
  from dfs_list_mono[OF dom] s1 have "set (jset_add n (fst s)) \<subseteq> set (fst s1)" by simp
  then have "set (fst s) \<subseteq> set (fst s1)" by (auto simp: jset_add_def)
  then have "set (map fst g) - set (fst s1) \<subseteq> set (map fst g) - set (fst s)" by blast
  then have "card (set (map fst g) - set (fst s1)) \<le> card (set (map fst g) - set (fst s))"
    by (intro card_mono) auto
  then show "((g, ns, fst s1, snd s1 @ [n]), (g, n # ns, s)) \<in>
      (\<lambda>(g, ns, s). card (set (map fst g) - set (fst s))) <*mlex*> measure (\<lambda>(g, ns, s). length ns)"
    by (auto simp: mlex_iff)
qed

text \<open>\<^verbatim>\<open>getOrderedSystems(phase)\<close>\<close>

definition getOrderedSystems :: "string \<Rightarrow> registry \<Rightarrow> nat list" where
  "getOrderedSystems phase R =
     (case map_of (p_explicitOrder R) phase of
        Some l \<Rightarrow> l
      | None \<Rightarrow>
          (let nodes = (case map_of (p_systems R) phase of None \<Rightarrow> [] | Some rs \<Rightarrow> rs);
               g = build_graph nodes
           in rev (snd (dfs_list g (map fst g) ([], [])))))"

subsection \<open>Notions used in the statements, and concrete inputs\<close>

text \<open>The store \<^verbatim>\<open>_mapFor\<close> registers for a component that has none.\<close>

definition fresh_store :: "component \<Rightarrow> world \<Rightarrow> store" where
  "fresh_store C w = (if storeMode w = ''soa'' then makeSoAStore C else makeMapStore)"

text \<open>The change table holds a mark for \<open>i\<close> under the key \<open>k\<close>.\<close>

definition marked :: "symbol \<Rightarrow> nat \<Rightarrow> (symbol \<times> nat list) list \<Rightarrow> bool" where
  "marked k i ch = (case map_of ch k of None \<Rightarrow> False | Some s \<Rightarrow> i \<in> set s)"

definition Position :: component where
  "Position = defineComponent 1 ''Position'' [(''x'', VNum 0), (''y'', VNum 0)] None"

text \<open>A fresh world in the default store mode, and the same world after
  \<^verbatim>\<open>const e = world.create(); world.add(e, Position, {})\<close>.\<close>

definition w_new :: world where
  "w_new = new_World ''map'' False None"

definition w_pos :: world where
  "w_pos = snd (add 1 Position [] (snd (create w_new)))"

text \<open>Two components with a validator: \<open>Checked\<close> accepts a record whose \<open>y\<close> is 0,
  \<open>Guarded\<close> rejects the record with \<open>x = 1\<close> and \<open>y = 0\<close>.  \<open>w_with mode C\<close> is a fresh
  world of the given store mode after \<^verbatim>\<open>const e = world.create(); world.add(e, C, {})\<close>.\<close>

definition Checked :: component where
  "Checked = defineComponent 2 ''Checked'' [(''x'', VNum 0), (''y'', VNum 0)]
               (Some (\<lambda>r. getProp r ''y'' = VNum 0))"

definition Guarded :: component where
  "Guarded = defineComponent 3 ''Guarded'' [(''x'', VNum 0), (''y'', VNum 0)]
               (Some (\<lambda>r. \<not> (getProp r ''x'' = VNum 1 \<and> getProp r ''y'' = VNum 0)))"

definition w_with :: "string \<Rightarrow> component \<Rightarrow> world" where
  "w_with mode C = snd (add 1 C [] (snd (create (new_World mode False None))))"

text \<open>A world with three entities: \<open>Position\<close> is added to 3 and then to 1, \<open>Checked\<close> to 3
  and then to 2.\<close>

definition w_three :: world where
  "w_three =
     snd (add 2 Checked [] (snd (add 3 Checked [] (snd (add 1 Position [] (snd (add 3 Position []
       (snd (create (snd (create (snd (create w_new)))))))))))))"




text \<open>A scheduler that enqueues 1001 commands in one tick: first a function that itself
  enqueues \<^verbatim>\<open>['destroy', 7]\<close> when it runs, then 999 functions that do nothing, and last
  \<^verbatim>\<open>['destroy', 8]\<close>.\<close>

definition storm :: "op list" where
  "storm = OpFn [Command (OpDestroy 7)] # replicate 999 (OpFn []) @ [OpDestroy 8]"

definition w_storm :: world where
  "w_storm = setScheduler (map Command storm) w_new"

text \<open>What a client does to a world from outside a tick: a call, a tick, or installing a
  scheduler.  \<open>ids_ok\<close> is the invariant of the id space: the free pool and the alive set
  are disjoint, hold no id twice, and together hold exactly the ids handed out so far,
  which are \<open>1, ..., p_nextId - 1\<close>.  \<open>frame\<close> relates two worlds with the same id space
  and the same configuration.\<close>

datatype action = Call call | Tick int | SetScheduler "call list"

fun act :: "action \<Rightarrow> world \<Rightarrow> world" where
  "act (Call c) w = snd (exec c w)"
| "act (Tick dt) w = snd (tick dt w)"
| "act (SetScheduler fn) w = setScheduler fn w"

definition run :: "action list \<Rightarrow> world \<Rightarrow> world" where
  "run acts w = fold act acts w"

definition ids_ok :: "world \<Rightarrow> bool" where
  "ids_ok w =
     (distinct (p_free w) \<and> distinct (alive w) \<and> set (p_free w) \<inter> set (alive w) = {} \<and>
      set (p_free w) \<union> set (alive w) = {1..<p_nextId w} \<and> 0 < p_nextId w)"

definition frame :: "world \<Rightarrow> world \<Rightarrow> bool" where
  "frame w w' =
     (p_free w' = p_free w \<and> p_nextId w' = p_nextId w \<and> alive w' = alive w \<and>
      scheduler w' = scheduler w \<and> onTick w' = onTick w \<and> storeMode w' = storeMode w \<and>
      strict w' = strict w)"

text \<open>The base list as the specification words it: the component's \<^verbatim>\<open>entityIds()\<close>, and
  the successive intersection of these lists over the positive components, or all alive
  ids in ascending order when there is no positive component.\<close>

definition spec_entityIds :: "component \<Rightarrow> world \<Rightarrow> nat list" where
  "spec_entityIds c w = entityIds (fst (mapFor c w))"

definition spec_base_list :: "component list \<Rightarrow> world \<Rightarrow> nat list" where
  "spec_base_list cs w =
     (case cs of
        [] \<Rightarrow> sort (alive w)
      | c # rest \<Rightarrow> foldl intersectSorted (spec_entityIds c w) (map (\<lambda>c. spec_entityIds c w) rest))"

text \<open>
  The hint graph of a phase, as the specification words it: an edge from \<open>u\<close> to \<open>v\<close> says
  that \<open>u\<close> must run before \<open>v\<close>; it comes from a \<^verbatim>\<open>before\<close> hint of \<open>u\<close> naming \<open>v\<close> or from
  an \<^verbatim>\<open>after\<close> hint of \<open>v\<close> naming \<open>u\<close>, and both systems are registered in the phase.
  \<open>precedes u v xs\<close> says that \<open>v\<close> occurs in \<open>xs\<close> after the first occurrence of \<open>u\<close>.
  \<open>edges\<close> and \<open>keys\<close> read the graph the code builds; \<open>topo g xs\<close> says that every
  successor of an element of \<open>xs\<close> occurs later in \<open>xs\<close>.
\<close>

definition registered :: "sysrec list \<Rightarrow> nat set" where
  "registered nodes = set (map system nodes)"

definition hint_edges :: "sysrec list \<Rightarrow> (nat \<times> nat) set" where
  "hint_edges nodes =
     {(u, v). u \<in> registered nodes \<and> v \<in> registered nodes \<and>
        (\<exists>r \<in> set nodes. (system r = u \<and> v \<in> set (before r)) \<or>
                           (system r = v \<and> u \<in> set (after r)))}"


definition edges :: "graph \<Rightarrow> (nat \<times> nat) set" where
  "edges g = {(u, v). v \<in> set (succs g u)}"

definition keys :: "graph \<Rightarrow> nat set" where
  "keys g = fst ` set g"


definition hints :: "nat set \<Rightarrow> sysrec list \<Rightarrow> (nat \<times> nat) set" where
  "hints K rs =
     {(u, v). u \<in> K \<and> v \<in> K \<and>
        (\<exists>r \<in> set rs. (system r = u \<and> v \<in> set (before r)) \<or> (system r = v \<and> u \<in> set (after r)))}"



text \<open>The records of a phase.\<close>

definition phase_nodes :: "string \<Rightarrow> registry \<Rightarrow> sysrec list" where
  "phase_nodes ph R = (case map_of (p_systems R) ph of None \<Rightarrow> [] | Some rs \<Rightarrow> rs)"

text \<open>
  The two module tables when the module is loaded, and the registry a call of
  \<^verbatim>\<open>registerSystem\<close> or \<^verbatim>\<open>setSystemOrder\<close> leaves: a call that throws changes nothing.
  \<open>R_plain\<close> is the registry after three registrations without hints,

  \<^verbatim>\<open>registerSystem(s1, 'update'); registerSystem(s2, 'update'); registerSystem(s3, 'update')\<close>

  and \<open>R_hints\<close> the registry after

  \<^verbatim>\<open>registerSystem(s1, 'update', {before: [s3, s9, s3]});\<close>
  \<^verbatim>\<open>registerSystem(s2, 'update', {after: [s3]}); registerSystem(s3, 'update')\<close>

  where \<^verbatim>\<open>s9\<close> is registered nowhere; \<open>R_demo\<close> is \<open>R_hints\<close> after
  \<^verbatim>\<open>setSystemOrder('render', [s5, s4])\<close>.
\<close>

definition R_empty :: registry where
  "R_empty = \<lparr>p_systems = [], p_explicitOrder = []\<rparr>"

definition after_register :: "nat \<Rightarrow> string \<Rightarrow> nat list \<Rightarrow> nat list \<Rightarrow> registry \<Rightarrow> registry" where
  "after_register sys ph bef aft R =
     (case registerSystem sys ph bef aft R of Inl e \<Rightarrow> R | Inr R1 \<Rightarrow> R1)"


definition R_plain :: registry where
  "R_plain =
     after_register 3 ''update'' [] []
       (after_register 2 ''update'' [] [] (after_register 1 ''update'' [] [] R_empty))"



section \<open>Properties\<close>

subsection \<open>Association lists\<close>

lemma update_fresh: "map_of al k = None \<Longrightarrow> AList.update k v al = al @ [(k, v)]"
  by (induction al) (auto split: if_splits)

lemma update_fresh_again:
  "map_of al k = None \<Longrightarrow> AList.update k v (al @ [(k, v')]) = al @ [(k, v)]"
  by (induction al) (auto split: if_splits)

lemma map_of_map_snd:
  "map_of (map (\<lambda>(k, st). (k, f st)) ss) k = map_option f (map_of ss k)"
  by (induction ss) auto

subsection \<open>Stores\<close>

lemma store_get_has: "fst (store_get i st) \<noteq> None \<longleftrightarrow> store_has i st"
  by (cases st) (auto simp: jmap_has_def)

lemma store_get_idem_fst: "fst (store_get j (snd (store_get i st))) = fst (store_get j st)"
  by (cases st) (auto simp: jmap_has_def view_get_def view_extras_def update_conv split: option.splits)

lemma store_has_get: "store_has j (snd (store_get i st)) = store_has j st"
  by (cases st) (auto simp: jmap_has_def)

lemma store_delete_fst: "fst (store_delete i st) = store_has i st"
  by (cases st) (auto simp: jmap_delete_def jset_delete_def)

lemma store_delete_has: "store_has j (snd (store_delete i st)) = (j \<noteq> i \<and> store_has j st)"
  by (cases st) (auto simp: jmap_delete_def jset_delete_def jmap_has_def delete_conv)

subsection \<open>get and has\<close>

lemma has_world:
  "snd (has i C w) =
     (if jmap_has (key C) (p_store w) then w
      else w\<lparr>p_store := p_store w @ [(key C, fresh_store C w)]\<rparr>)"
  by (auto simp: has_def mapFor_def jmap_has_def Let_def fresh_store_def update_fresh
      split: option.splits)

lemma get_world:
  "snd (get i C w) =
     (case map_of (p_store w) (key C) of
        None \<Rightarrow> w\<lparr>p_store := p_store w @ [(key C, fresh_store C w)]\<rparr>
      | Some (MapStore m) \<Rightarrow> w
      | Some (SoAStore s) \<Rightarrow>
          (if i \<in> set (present s) \<and> \<not> jmap_has i (views s)
           then w\<lparr>p_store := AList.update (key C)
                     (SoAStore (s\<lparr>views := AList.update i [] (views s)\<rparr>)) (p_store w)\<rparr>
           else w))"
  by (auto simp: get_def mapFor_def put_store_def Let_def fresh_store_def update_fresh
      update_fresh_again jmap_has_def AList.update_triv makeSoAStore_def makeMapStore_def
      split: option.splits store.splits)

lemma has_after_has: "fst (has j D (snd (has i C w))) = fst (has j D w)"
  by (auto simp: has_def mapFor_def Let_def update_conv makeSoAStore_def makeMapStore_def
      jmap_has_def split: option.splits)

lemma get_after_has: "fst (get j D (snd (has i C w))) = fst (get j D w)"
  by (auto simp: has_def get_def mapFor_def Let_def update_conv makeSoAStore_def
      makeMapStore_def jmap_has_def split: option.splits)

lemma has_after_get: "fst (has j D (snd (get i C w))) = fst (has j D w)"
  by (auto simp: has_def get_def mapFor_def put_store_def Let_def update_conv makeSoAStore_def
      makeMapStore_def jmap_has_def store_has_get split: option.splits)

lemma get_after_get: "fst (get j D (snd (get i C w))) = fst (get j D w)"
  by (auto simp: get_def mapFor_def put_store_def Let_def update_conv makeSoAStore_def
      makeMapStore_def jmap_has_def store_get_idem_fst split: option.splits)

lemma get_has_inTick:
  "fst (get i C (w\<lparr>p_inTick := b\<rparr>)) = fst (get i C w) \<and>
   fst (has i C (w\<lparr>p_inTick := b\<rparr>)) = fst (has i C w)"
  by (auto simp: get_def has_def mapFor_def Let_def split: option.splits)

text \<open>
  Claim C3, as the specification states it: \<^verbatim>\<open>get\<close> and \<^verbatim>\<open>has\<close> leave the store table as
  it was.  They do not: both go through \<^verbatim>\<open>_mapFor\<close>, which registers an empty store for a
  component that has none yet.  On a fresh world, \<^verbatim>\<open>get(1, Position)\<close> and
  \<^verbatim>\<open>has(1, Position)\<close> each leave a store table with one entry.
\<close>

theorem C3_store_table_counterexample:
  "p_store w_new = [] \<and>
   p_store (snd (get 1 Position w_new)) = [(key Position, MapStore [])] \<and>
   p_store (snd (has 1 Position w_new)) = [(key Position, MapStore [])]"
  by (simp add: w_new_def new_World_def get_def has_def mapFor_def put_store_def Let_def
      makeMapStore_def)

text \<open>
  Claim C3, amended: \<^verbatim>\<open>get\<close> and \<^verbatim>\<open>has\<close> are never deferred (inside a tick they answer as
  outside, and they leave the command queue alone) and leave the query cache, the change
  table, the command queue, the alive set and the free pool as they were.  \<^verbatim>\<open>has\<close> leaves
  the whole world unchanged when the component has a store, and otherwise appends an empty
  store for it to the store table; \<^verbatim>\<open>get\<close> does the same, and in the columnar mode it also
  caches the view of a present id.  No later \<^verbatim>\<open>get\<close> or \<^verbatim>\<open>has\<close> answers differently.
\<close>

theorem C3_get_has_frame:
  "snd (has i C w) =
     (if jmap_has (key C) (p_store w) then w
      else w\<lparr>p_store := p_store w @ [(key C, fresh_store C w)]\<rparr>) \<and>
   snd (get i C w) =
     (case map_of (p_store w) (key C) of
        None \<Rightarrow> w\<lparr>p_store := p_store w @ [(key C, fresh_store C w)]\<rparr>
      | Some (MapStore m) \<Rightarrow> w
      | Some (SoAStore s) \<Rightarrow>
          (if i \<in> set (present s) \<and> \<not> jmap_has i (views s)
           then w\<lparr>p_store := AList.update (key C)
                     (SoAStore (s\<lparr>views := AList.update i [] (views s)\<rparr>)) (p_store w)\<rparr>
           else w)) \<and>
   fst (has j D (snd (has i C w))) = fst (has j D w) \<and>
   fst (get j D (snd (has i C w))) = fst (get j D w) \<and>
   fst (has j D (snd (get i C w))) = fst (has j D w) \<and>
   fst (get j D (snd (get i C w))) = fst (get j D w) \<and>
   fst (get i C (w\<lparr>p_inTick := True\<rparr>)) = fst (get i C w) \<and>
   fst (has i C (w\<lparr>p_inTick := True\<rparr>)) = fst (has i C w) \<and>
   p_cmd (snd (get i C w)) = p_cmd w \<and> p_cmd (snd (has i C w)) = p_cmd w \<and>
   p_cache (snd (get i C w)) = p_cache w \<and> p_cache (snd (has i C w)) = p_cache w \<and>
   p_changed (snd (get i C w)) = p_changed w \<and> p_changed (snd (has i C w)) = p_changed w \<and>
   alive (snd (get i C w)) = alive w \<and> alive (snd (has i C w)) = alive w \<and>
   p_free (snd (get i C w)) = p_free w \<and> p_free (snd (has i C w)) = p_free w"
proof -
  have frame_get:
    "p_cmd (snd (get i C w)) = p_cmd w \<and> p_cache (snd (get i C w)) = p_cache w \<and>
     p_changed (snd (get i C w)) = p_changed w \<and> alive (snd (get i C w)) = alive w \<and>
     p_free (snd (get i C w)) = p_free w"
    by (simp add: get_def mapFor_def put_store_def Let_def split: option.splits)
  have frame_has:
    "p_cmd (snd (has i C w)) = p_cmd w \<and> p_cache (snd (has i C w)) = p_cache w \<and>
     p_changed (snd (has i C w)) = p_changed w \<and> alive (snd (has i C w)) = alive w \<and>
     p_free (snd (has i C w)) = p_free w"
    by (simp add: has_def mapFor_def Let_def split: option.splits)
  show ?thesis
    using frame_get frame_has has_world[of i C w] get_world[of i C w]
      has_after_has[of j D i C w] get_after_has[of j D i C w]
      has_after_get[of j D i C w] get_after_get[of j D i C w]
      get_has_inTick[of i C True w]
    by simp
qed

subsection \<open>destroy\<close>

lemma changed_marked: "changed i C w = marked (key C) i (p_changed w)"
  by (simp add: changed_def marked_def)

lemma marked_mark: "marked k j (mark k' i ch) = (marked k j ch \<or> (k = k' \<and> j = i))"
  by (auto simp: marked_def mark_def update_conv jset_add_def split: option.splits)

lemma purge_fst: "fst (purge i ss ch) = map (\<lambda>(k, st). (k, snd (store_delete i st))) ss"
  by (induction ss arbitrary: ch) (auto simp: Let_def)

lemma purge_snd:
  "marked k j (snd (purge i ss ch)) =
     (marked k j ch \<or> (j = i \<and> (\<exists>st. (k, st) \<in> set ss \<and> store_has i st)))"
proof (induction ss arbitrary: ch)
  case Nil
  show ?case by simp
next
  case (Cons p rest)
  obtain k' st where p: "p = (k', st)" by (cases p)
  let ?ch1 = "if store_has i st then mark k' i ch else ch"
  have "snd (purge i (p # rest) ch) = snd (purge i rest ?ch1)"
    by (simp add: p Let_def store_delete_fst)
  then have "marked k j (snd (purge i (p # rest) ch)) =
      (marked k j ?ch1 \<or> (j = i \<and> (\<exists>st. (k, st) \<in> set rest \<and> store_has i st)))"
    by (simp only: Cons.IH)
  also have "marked k j ?ch1 = (marked k j ch \<or> (store_has i st \<and> k = k' \<and> j = i))"
    by (simp add: marked_mark)
  finally show ?case unfolding p by auto
qed

lemma destroy_dead: "i \<notin> set (alive w) \<Longrightarrow> destroy i w = (Inr (RBool False), w)"
  by (simp add: destroy_def)

lemma destroy_live:
  assumes "i \<in> set (alive w)" "\<not> p_inTick w"
  shows "destroy i w =
     (Inr (RBool True),
      w\<lparr>p_store := map (\<lambda>(k, st). (k, snd (store_delete i st))) (p_store w),
        p_changed := snd (purge i (p_store w) (p_changed w)),
        alive := removeAll i (alive w),
        p_free := p_free w @ [i],
        p_cache := []\<rparr>)"
  using assms by (simp add: destroy_def Let_def purge_fst invalidateCaches_def jset_delete_def)

lemma has_purged:
  "fst (has i C (w\<lparr>p_store := map (\<lambda>(k, st). (k, snd (store_delete i st))) (p_store w)\<rparr>)) = False"
proof (cases "map_of (p_store w) (key C)")
  case None
  then show ?thesis
    by (simp add: has_def mapFor_def Let_def map_of_map_snd makeSoAStore_def makeMapStore_def
        jmap_has_def)
next
  case (Some st)
  then show ?thesis
    by (simp add: has_def mapFor_def Let_def map_of_map_snd store_delete_has)
qed

lemma w_pos_eval:
  "w_pos = w_new\<lparr>p_nextId := 2, alive := [1],
      p_store := [(key Position, MapStore [(1, [(''x'', VNum 0), (''y'', VNum 0)])])],
      p_changed := [(key Position, [1])]\<rparr>"
  by (simp add: w_pos_def w_new_def new_World_def create_def add_def jset_add_def Position_def
      defineComponent_def object_assign_def deepCloneObj_def rejects_def mapFor_def Let_def
      makeMapStore_def put_store_def markChanged_def mark_def invalidateCaches_def)

text \<open>
  Claim C4: \<^verbatim>\<open>destroy(id)\<close> returns \<^verbatim>\<open>false\<close> and changes nothing when \<open>id\<close> is not alive.
  When \<open>id\<close> is alive and the world is outside a tick, it returns \<^verbatim>\<open>true\<close>; every store
  of the table has had \<^verbatim>\<open>delete(id)\<close> applied and holds no record for \<open>id\<close>; the change
  table gains a mark for \<open>id\<close> under exactly the keys whose store held a record for it;
  \<open>id\<close> leaves the alive set and is pushed on the free pool; the query cache is empty;
  and \<^verbatim>\<open>has(id, C)\<close> is false for every component \<open>C\<close>.
\<close>

theorem C4_destroy:
  "(i \<notin> set (alive w) \<longrightarrow> destroy i w = (Inr (RBool False), w)) \<and>
   (i \<in> set (alive w) \<and> \<not> p_inTick w \<longrightarrow>
      fst (destroy i w) = Inr (RBool True) \<and>
      p_store (snd (destroy i w)) = map (\<lambda>(k, st). (k, snd (store_delete i st))) (p_store w) \<and>
      (\<forall>k st. (k, st) \<in> set (p_store (snd (destroy i w))) \<longrightarrow> \<not> store_has i st) \<and>
      (\<forall>k j. marked k j (p_changed (snd (destroy i w))) =
          (marked k j (p_changed w) \<or> (j = i \<and> (\<exists>st. (k, st) \<in> set (p_store w) \<and> store_has i st)))) \<and>
      alive (snd (destroy i w)) = removeAll i (alive w) \<and>
      p_free (snd (destroy i w)) = p_free w @ [i] \<and>
      p_cache (snd (destroy i w)) = [] \<and>
      (\<forall>C. \<not> fst (has i C (snd (destroy i w)))))"
proof (intro conjI impI)
  assume "i \<notin> set (alive w)"
  then show "destroy i w = (Inr (RBool False), w)" by (rule destroy_dead)
next
  assume a: "i \<in> set (alive w) \<and> \<not> p_inTick w"
  then have d: "destroy i w =
     (Inr (RBool True),
      w\<lparr>p_store := map (\<lambda>(k, st). (k, snd (store_delete i st))) (p_store w),
        p_changed := snd (purge i (p_store w) (p_changed w)),
        alive := removeAll i (alive w),
        p_free := p_free w @ [i],
        p_cache := []\<rparr>)"
    by (simp add: destroy_live)
  show "fst (destroy i w) = Inr (RBool True)" by (simp add: d)
  show "p_store (snd (destroy i w)) = map (\<lambda>(k, st). (k, snd (store_delete i st))) (p_store w)"
    by (simp add: d)
  show "\<forall>k st. (k, st) \<in> set (p_store (snd (destroy i w))) \<longrightarrow> \<not> store_has i st"
    by (auto simp: d store_delete_has)
  show "\<forall>k j. marked k j (p_changed (snd (destroy i w))) =
          (marked k j (p_changed w) \<or> (j = i \<and> (\<exists>st. (k, st) \<in> set (p_store w) \<and> store_has i st)))"
    by (simp add: d purge_snd)
  show "alive (snd (destroy i w)) = removeAll i (alive w)" by (simp add: d)
  show "p_free (snd (destroy i w)) = p_free w @ [i]" by (simp add: d)
  show "p_cache (snd (destroy i w)) = []" by (simp add: d)
  show "\<forall>C. \<not> fst (has i C (snd (destroy i w)))"
  proof
    fix C
    have "fst (has i C (snd (destroy i w))) =
          fst (has i C (w\<lparr>p_store := map (\<lambda>(k, st). (k, snd (store_delete i st))) (p_store w)\<rparr>))"
      by (simp add: d has_def mapFor_def Let_def split: option.splits)
    then show "\<not> fst (has i C (snd (destroy i w)))" by (simp add: has_purged)
  qed
qed

theorem C4_destroy_witness:
  "2 \<notin> set (alive w_pos) \<and> destroy 2 w_pos = (Inr (RBool False), w_pos) \<and>
   1 \<in> set (alive w_pos) \<and> \<not> p_inTick w_pos \<and> fst (has 1 Position w_pos) \<and>
   fst (destroy 1 w_pos) = Inr (RBool True) \<and>
   alive (snd (destroy 1 w_pos)) = [] \<and>
   p_free (snd (destroy 1 w_pos)) = [1] \<and>
   p_cache (snd (destroy 1 w_pos)) = [] \<and>
   marked (key Position) 1 (p_changed (snd (destroy 1 w_pos))) \<and>
   \<not> fst (has 1 Position (snd (destroy 1 w_pos)))"
proof -
  have a: "2 \<notin> set (alive w_pos)" "1 \<in> set (alive w_pos)" "\<not> p_inTick w_pos"
    by (simp_all add: w_pos_eval w_new_def new_World_def)
  have h: "fst (has 1 Position w_pos)"
    by (simp add: w_pos_eval has_def mapFor_def Let_def jmap_has_def)
  have m: "\<exists>st. (key Position, st) \<in> set (p_store w_pos) \<and> store_has 1 st"
    by (simp add: w_pos_eval jmap_has_def)
  have f: "p_free w_pos = []" by (simp add: w_pos_eval w_new_def new_World_def)
  have l: "alive w_pos = [1]" by (simp add: w_pos_eval)
  show ?thesis
    using C4_destroy[of 2 w_pos] C4_destroy[of 1 w_pos] a h m f l by simp
qed


subsection \<open>set and mutate\<close>

lemma object_assign_Nil [simp]: "object_assign r [] = r"
  by (simp add: object_assign_def)

lemma object_assign_Cons [simp]:
  "object_assign r ((k, v) # kvs) = object_assign (AList.update k v r) kvs"
  by (simp add: object_assign_def)

lemma object_assign_self_aux:
  "distinct (map fst r) \<Longrightarrow> fst ` set acc \<inter> fst ` set r = {} \<Longrightarrow> object_assign acc r = acc @ r"
proof (induction r arbitrary: acc)
  case Nil
  then show ?case by simp
next
  case (Cons p r)
  obtain k v where p: "p = (k, v)" by (cases p)
  from Cons.prems have "map_of acc k = None"
    by (auto simp: p map_of_eq_None_iff)
  then have u: "AList.update k v acc = acc @ [(k, v)]" by (rule update_fresh)
  have "object_assign (acc @ [(k, v)]) r = (acc @ [(k, v)]) @ r"
    using Cons.prems by (intro Cons.IH) (auto simp: p)
  then show ?case by (simp add: p u)
qed

lemma object_assign_copy: "distinct (map fst r) \<Longrightarrow> object_assign [] r = r"
  using object_assign_self_aux[of r "[]"] by simp

lemma setRec_map:
  assumes "\<not> p_inTick w" and "map_of (p_store w) (key C) = Some (MapStore m)"
  shows "setRec i C patch w =
     (case map_of m i of
        None \<Rightarrow> (Inl MissingComponent, w)
      | Some r \<Rightarrow>
          if rejects C (object_assign (object_assign [] r) patch)
          then (Inl (ValidationFailed (name C)), w)
          else (Inr (RRec (Plain (object_assign r patch))),
                w\<lparr>p_store := AList.update (key C)
                        (MapStore (AList.update i (object_assign r patch) m)) (p_store w),
                  p_changed := mark (key C) i (p_changed w)\<rparr>))"
proof -
  have g: "get i C w = (map_option Plain (map_of m i), w)"
    using assms(2) by (simp add: get_def mapFor_def put_store_def Let_def AList.update_triv)
  have me: "\<And>r f. map_of m i = Some r \<Longrightarrow> AList.map_entry i f m = AList.update i (f r) m"
  proof -
    fix r :: obj and f
    show "map_of m i = Some r \<Longrightarrow> AList.map_entry i f m = AList.update i (f r) m"
      by (induction m) auto
  qed
  show ?thesis
  proof (cases "map_of m i")
    case None
    then show ?thesis using assms(1) g by (simp add: setRec_def Let_def)
  next
    case (Some r)
    then show ?thesis using assms g
      by (simp add: setRec_def Let_def mapFor_def put_store_def markChanged_def me update_conv)
  qed
qed


lemma w_soa_eval:
  "w_with ''soa'' C =
     (if rejects C (object_assign (object_assign [] (deepCloneObj (defaults C))) [])
      then snd (create (new_World ''soa'' False None))
      else (new_World ''soa'' False None)\<lparr>p_nextId := 2, alive := [1],
        p_store := [(key C, store_set 1 (object_assign [] (deepCloneObj (defaults C))) (makeSoAStore C))],
        p_changed := [(key C, [1])]\<rparr>)"
  by (simp add: w_with_def new_World_def create_def add_def jset_add_def
      deepCloneObj_def mapFor_def Let_def put_store_def markChanged_def mark_def invalidateCaches_def)

lemma Checked_store:
  "store_set 1 (object_assign [] (deepCloneObj (defaults Checked))) (makeSoAStore Checked) =
   SoAStore \<lparr>sfields = [''x'', ''y''], sdefaults = [(''x'', VNum 0), (''y'', VNum 0)],
              arrays = [(''x'', [(1, VNum 0)]), (''y'', [(1, VNum 0)])],
              present = [1], views = []\<rparr>"
  by (simp add: Checked_def defineComponent_def deepCloneObj_def makeSoAStore_def jset_add_def
      arr_write_def getProp_def nullish_def)

lemma w_soa_Checked:
  "w_with ''soa'' Checked =
     (new_World ''soa'' False None)\<lparr>p_nextId := 2, alive := [1],
        p_store := [(key Checked, SoAStore \<lparr>sfields = [''x'', ''y''], sdefaults = [(''x'', VNum 0), (''y'', VNum 0)],
              arrays = [(''x'', [(1, VNum 0)]), (''y'', [(1, VNum 0)])],
              present = [1], views = []\<rparr>)],
        p_changed := [(key Checked, [1])]\<rparr>"
proof -
  have "\<not> rejects Checked (object_assign (object_assign [] (deepCloneObj (defaults Checked))) [])"
    by (simp add: Checked_def defineComponent_def deepCloneObj_def rejects_def getProp_def)
  then show ?thesis using Checked_store by (simp add: w_soa_eval)
qed

lemma w_map_Checked:
  "w_with ''map'' Checked =
     w_new\<lparr>p_nextId := 2, alive := [1],
        p_store := [(key Checked, MapStore [(1, [(''x'', VNum 0), (''y'', VNum 0)])])],
        p_changed := [(key Checked, [1])]\<rparr>"
  by (simp add: w_with_def w_new_def new_World_def create_def add_def jset_add_def Checked_def
      defineComponent_def deepCloneObj_def rejects_def getProp_def mapFor_def Let_def
      makeMapStore_def put_store_def markChanged_def mark_def invalidateCaches_def)

text \<open>
  Claim C6 holds in the default store mode (\<open>setRec_map\<close>: the record validated is the
  stored record merged with the patch).  In the columnar mode \<^verbatim>\<open>get\<close> returns a view
  whose accessors are not enumerable, so \<^verbatim>\<open>Object.assign({}, rec, patch)\<close> copies none of
  the stored fields and the validator is given the patch alone.  On the input below the
  stored record is \<^verbatim>\<open>{x: 0, y: 0}\<close> and the patch is \<^verbatim>\<open>{x: 1}\<close>: the merged record
  \<^verbatim>\<open>{x: 1, y: 0}\<close> passes the validator of \<open>Checked\<close>, and \<^verbatim>\<open>set\<close> fails with a validation
  error all the same; the same call in the default store mode succeeds.
\<close>

theorem C6_soa_set_rejects_valid_merge:
  "\<not> p_inTick (w_with ''soa'' Checked) \<and>
   fst (get 1 Checked (w_with ''soa'' Checked)) =
     Some (View [(''x'', VNum 0), (''y'', VNum 0)] []) \<and>
   \<not> rejects Checked (object_assign [(''x'', VNum 0), (''y'', VNum 0)] [(''x'', VNum 1)]) \<and>
   fst (setRec 1 Checked [(''x'', VNum 1)] (w_with ''soa'' Checked)) =
     Inl (ValidationFailed ''Checked'') \<and>
   fst (setRec 1 Checked [(''x'', VNum 1)] (w_with ''map'' Checked)) =
     Inr (RRec (Plain [(''x'', VNum 1), (''y'', VNum 0)]))"
proof -
  have mp: "fst (setRec 1 Checked [(''x'', VNum 1)] (w_with ''map'' Checked)) =
     Inr (RRec (Plain [(''x'', VNum 1), (''y'', VNum 0)]))"
  proof -
    have t: "\<not> p_inTick (w_with ''map'' Checked)"
      and st: "map_of (p_store (w_with ''map'' Checked)) (key Checked) =
        Some (MapStore [(1, [(''x'', VNum 0), (''y'', VNum 0)])])"
      by (simp_all add: w_map_Checked w_new_def new_World_def)
    have "\<not> rejects Checked (object_assign (object_assign [] [(''x'', VNum 0), (''y'', VNum 0)])
        [(''x'', VNum 1)])"
      by (simp add: rejects_def Checked_def defineComponent_def getProp_def)
    then show ?thesis using setRec_map[OF t st, of 1 "[(''x'', VNum 1)]"] by simp
  qed
  have g: "get 1 Checked (w_with ''soa'' Checked) =
     (Some (View [(''x'', VNum 0), (''y'', VNum 0)] []),
      (w_with ''soa'' Checked)\<lparr>p_store := [(key Checked, SoAStore \<lparr>sfields = [''x'', ''y''], sdefaults = [(''x'', VNum 0), (''y'', VNum 0)],
              arrays = [(''x'', [(1, VNum 0)]), (''y'', [(1, VNum 0)])],
              present = [1], views = [(1, [])]\<rparr>)]\<rparr>)"
    by (simp add: w_soa_Checked get_def mapFor_def Let_def put_store_def jmap_has_def
        view_get_def view_extras_def arr_read_def nullish_def new_World_def)
  have r: "rejects Checked [(''x'', VNum 1)]"
    by (simp add: rejects_def Checked_def defineComponent_def getProp_def)
  have n: "\<not> rejects Checked (object_assign [(''x'', VNum 0), (''y'', VNum 0)] [(''x'', VNum 1)])"
    by (simp add: rejects_def Checked_def defineComponent_def getProp_def)
  have t: "\<not> p_inTick (w_with ''soa'' Checked)" by (simp add: w_soa_Checked new_World_def)
  have "fst (setRec 1 Checked [(''x'', VNum 1)] (w_with ''soa'' Checked)) =
     Inl (ValidationFailed (name Checked))"
    using t r g by (simp add: setRec_def Let_def)
  then show ?thesis using g n t mp by (simp add: Checked_def defineComponent_def)
qed


lemma map_entry_update: "map_of m i = Some r \<Longrightarrow> AList.map_entry i f m = AList.update i (f r) m"
  by (induction m) auto

lemma mutate_map:
  assumes "\<not> p_inTick w" and "map_of (p_store w) (key C) = Some (MapStore m)"
  shows "mutate i C fn w =
     (case map_of m i of
        None \<Rightarrow> (Inl MissingComponent, w)
      | Some r \<Rightarrow>
          (Inr (RRec (Plain (fn r))),
           w\<lparr>p_store := AList.update (key C) (MapStore (AList.update i (fn r) m)) (p_store w),
             p_changed := mark (key C) i (p_changed w)\<rparr>))"
proof -
  have g: "get i C w = (map_option Plain (map_of m i), w)"
    using assms(2) by (simp add: get_def mapFor_def put_store_def Let_def AList.update_triv)
  show ?thesis
  proof (cases "map_of m i")
    case None
    then show ?thesis using assms(1) g by (simp add: mutate_def Let_def)
  next
    case (Some r)
    then show ?thesis using assms g
      by (simp add: mutate_def Let_def mapFor_def put_store_def markChanged_def map_entry_update
          update_conv)
  qed
qed

lemma get_Some_has: "fst (get i C w) \<noteq> None \<longleftrightarrow> fst (has i C w)"
  using store_get_has[of i "fst (mapFor C w)"] by (simp add: get_def has_def Let_def)

lemma store_has_edit: "store_has j (store_edit i fn st) = store_has j st"
proof (cases st)
  case (MapStore m)
  have "map_of (AList.map_entry i fn m) j = None \<longleftrightarrow> map_of m j = None"
    by (induction m) auto
  then show ?thesis by (simp add: MapStore jmap_has_def)
next
  case (SoAStore s)
  have "present (fold (view_assign i) kvs s') = present s'" for kvs s'
    by (induction kvs arbitrary: s') (auto simp: view_assign_def)
  then show ?thesis by (simp add: SoAStore)
qed

lemma mutate_succeeds:
  assumes "\<not> p_inTick w" and "fst (has i C w)"
  shows "(\<exists>h. fst (mutate i C fn w) = Inr (RRec h)) \<and>
         changed i C (snd (mutate i C fn w)) \<and>
         p_cache (snd (mutate i C fn w)) = p_cache w"
proof -
  from assms(2) obtain h where h: "fst (get i C w) = Some h"
    using get_Some_has[of i C w] by auto
  have c: "p_cache (snd (get i C w)) = p_cache w"
    by (simp add: get_def mapFor_def put_store_def Let_def split: option.splits)
  show ?thesis using assms(1) h c
    by (auto simp: mutate_def Let_def changed_marked markChanged_def marked_mark put_store_def
        split: option.splits)
qed

lemma mapFor_validate: "mapFor (C\<lparr>validate := v\<rparr>) w = mapFor C w"
  by (simp add: mapFor_def makeSoAStore_def Let_def split: option.splits)

lemma get_validate: "get i (C\<lparr>validate := v\<rparr>) w = get i C w"
  by (simp add: get_def mapFor_validate)

lemma mutate_ignores_validator:
  "\<not> p_inTick w \<Longrightarrow> mutate i (C\<lparr>validate := v\<rparr>) fn w = mutate i C fn w"
  by (simp add: mutate_def get_validate mapFor_validate Let_def split: option.splits)


lemma Guarded_store:
  "store_set 1 (object_assign [] (deepCloneObj (defaults Guarded))) (makeSoAStore Guarded) =
   SoAStore \<lparr>sfields = [''x'', ''y''], sdefaults = [(''x'', VNum 0), (''y'', VNum 0)],
              arrays = [(''x'', [(1, VNum 0)]), (''y'', [(1, VNum 0)])],
              present = [1], views = []\<rparr>"
  by (simp add: Guarded_def defineComponent_def deepCloneObj_def makeSoAStore_def jset_add_def
      arr_write_def getProp_def nullish_def)

lemma w_soa_Guarded:
  "w_with ''soa'' Guarded =
     (new_World ''soa'' False None)\<lparr>p_nextId := 2, alive := [1],
        p_store := [(key Guarded, SoAStore \<lparr>sfields = [''x'', ''y''], sdefaults = [(''x'', VNum 0), (''y'', VNum 0)],
              arrays = [(''x'', [(1, VNum 0)]), (''y'', [(1, VNum 0)])],
              present = [1], views = []\<rparr>)],
        p_changed := [(key Guarded, [1])]\<rparr>"
proof -
  have "\<not> rejects Guarded (object_assign (object_assign [] (deepCloneObj (defaults Guarded))) [])"
    by (simp add: Guarded_def defineComponent_def deepCloneObj_def rejects_def getProp_def)
  then show ?thesis using Guarded_store by (simp add: w_soa_eval)
qed

text \<open>In the default store mode, a patch whose merged record the validator rejects makes
  \<^verbatim>\<open>set\<close> fail, where \<^verbatim>\<open>mutate\<close> with the function that merges the same patch succeeds.\<close>

lemma set_fails_mutate_succeeds_map:
  assumes "\<not> p_inTick w" and "map_of (p_store w) (key C) = Some (MapStore m)"
    and "map_of m i = Some r" and "distinct (map fst r)"
    and "rejects C (object_assign r patch)"
  shows "fst (setRec i C patch w) = Inl (ValidationFailed (name C))"
    and "fst (mutate i C (\<lambda>r. object_assign r patch) w) = Inr (RRec (Plain (object_assign r patch)))"
proof -
  from assms(4) have c: "object_assign [] r = r" by (rule object_assign_copy)
  show "fst (setRec i C patch w) = Inl (ValidationFailed (name C))"
    using setRec_map[OF assms(1,2), of i patch] assms(3,5) c by simp
  show "fst (mutate i C (\<lambda>r. object_assign r patch) w) = Inr (RRec (Plain (object_assign r patch)))"
    using mutate_map[OF assms(1,2), of i "\<lambda>r. object_assign r patch"] assms(3) by simp
qed

lemma w_map_Guarded:
  "w_with ''map'' Guarded =
     (new_World ''map'' False None)\<lparr>p_nextId := 2, alive := [1],
        p_store := [(key Guarded, MapStore [(1, [(''x'', VNum 0), (''y'', VNum 0)])])],
        p_changed := [(key Guarded, [1])]\<rparr>"
  by (simp add: w_with_def new_World_def create_def add_def jset_add_def Guarded_def
      defineComponent_def deepCloneObj_def rejects_def getProp_def mapFor_def Let_def
      makeMapStore_def put_store_def markChanged_def mark_def invalidateCaches_def)

text \<open>
  Claim C10: \<^verbatim>\<open>mutate\<close> never runs the validator (\<open>mutate_ignores_validator\<close>,
  \<open>mutate_succeeds\<close>), and in the default store mode a \<^verbatim>\<open>set\<close> whose merged record the
  validator rejects fails (\<open>set_fails_mutate_succeeds_map\<close>).  In the columnar mode the validator of \<^verbatim>\<open>set\<close>
  is given the patch alone: on the input below \<^verbatim>\<open>mutate\<close> and \<^verbatim>\<open>set\<close> both succeed and
  both leave the record \<^verbatim>\<open>{x: 1, y: 0}\<close>, which the validator of \<open>Guarded\<close> rejects; in the
  default store mode the same \<^verbatim>\<open>mutate\<close> succeeds and the same \<^verbatim>\<open>set\<close> fails.
\<close>

theorem C10_soa_set_accepts_rejected_record:
  "\<not> p_inTick (w_with ''soa'' Guarded) \<and>
   fst (mutate 1 Guarded (AList.update ''x'' (VNum 1)) (w_with ''soa'' Guarded)) =
     Inr (RRec (View [(''x'', VNum 1), (''y'', VNum 0)] [])) \<and>
   fst (setRec 1 Guarded [(''x'', VNum 1)] (w_with ''soa'' Guarded)) =
     Inr (RRec (View [(''x'', VNum 1), (''y'', VNum 0)] [])) \<and>
   rejects Guarded (readable (View [(''x'', VNum 1), (''y'', VNum 0)] [])) \<and>
   fst (mutate 1 Guarded (AList.update ''x'' (VNum 1)) (w_with ''map'' Guarded)) =
     Inr (RRec (Plain [(''x'', VNum 1), (''y'', VNum 0)])) \<and>
   fst (setRec 1 Guarded [(''x'', VNum 1)] (w_with ''map'' Guarded)) =
     Inl (ValidationFailed ''Guarded'')"
proof -
  have tm: "\<not> p_inTick (w_with ''map'' Guarded)"
    and st: "map_of (p_store (w_with ''map'' Guarded)) (key Guarded) =
        Some (MapStore [(1, [(''x'', VNum 0), (''y'', VNum 0)])])"
    by (simp_all add: w_map_Guarded new_World_def)
  have rj: "rejects Guarded (object_assign (object_assign [] [(''x'', VNum 0), (''y'', VNum 0)])
        [(''x'', VNum 1)])"
    by (simp add: rejects_def Guarded_def defineComponent_def getProp_def)
  have nm: "name Guarded = ''Guarded''" by (simp add: Guarded_def defineComponent_def)
  have ms: "fst (setRec 1 Guarded [(''x'', VNum 1)] (w_with ''map'' Guarded)) =
     Inl (ValidationFailed ''Guarded'')"
    using setRec_map[OF tm st, of 1 "[(''x'', VNum 1)]"] rj nm by simp
  have mm: "fst (mutate 1 Guarded (AList.update ''x'' (VNum 1)) (w_with ''map'' Guarded)) =
     Inr (RRec (Plain [(''x'', VNum 1), (''y'', VNum 0)]))"
    using mutate_map[OF tm st, of 1 "AList.update ''x'' (VNum 1)"] by simp
  have g: "get 1 Guarded (w_with ''soa'' Guarded) =
     (Some (View [(''x'', VNum 0), (''y'', VNum 0)] []),
      (w_with ''soa'' Guarded)\<lparr>p_store := [(key Guarded, SoAStore \<lparr>sfields = [''x'', ''y''], sdefaults = [(''x'', VNum 0), (''y'', VNum 0)],
              arrays = [(''x'', [(1, VNum 0)]), (''y'', [(1, VNum 0)])],
              present = [1], views = [(1, [])]\<rparr>)]\<rparr>)"
    by (simp add: w_soa_Guarded get_def mapFor_def Let_def put_store_def jmap_has_def
        view_get_def view_extras_def arr_read_def nullish_def new_World_def)
  have t: "\<not> p_inTick (w_with ''soa'' Guarded)" by (simp add: w_soa_Guarded new_World_def)
  have r: "\<not> rejects Guarded [(''x'', VNum 1)]"
    by (simp add: rejects_def Guarded_def defineComponent_def getProp_def)
  have r2: "rejects Guarded (readable (View [(''x'', VNum 1), (''y'', VNum 0)] []))"
    by (simp add: rejects_def Guarded_def defineComponent_def getProp_def)
  have s: "fst (setRec 1 Guarded [(''x'', VNum 1)] (w_with ''soa'' Guarded)) =
     Inr (RRec (View [(''x'', VNum 1), (''y'', VNum 0)] []))"
    using t r g
    by (simp add: setRec_def Let_def mapFor_def w_soa_Guarded put_store_def view_assign_def
        arr_write_def view_get_def view_extras_def arr_read_def nullish_def)
  have m: "fst (mutate 1 Guarded (AList.update ''x'' (VNum 1)) (w_with ''soa'' Guarded)) =
     Inr (RRec (View [(''x'', VNum 1), (''y'', VNum 0)] []))"
    using t g
    by (simp add: mutate_def Let_def mapFor_def w_soa_Guarded put_store_def view_assign_def
        arr_write_def view_get_def view_extras_def arr_read_def nullish_def)
  show ?thesis using t s m r2 ms mm by simp
qed


subsection \<open>Errors\<close>

lemma w_new_fields [simp]:
  "scheduler w_new = None" "onTick w_new = None" "storeMode w_new = ''map''" "p_store w_new = []"
  "p_cache w_new = []" "p_changed w_new = []" "p_cmd w_new = []" "p_free w_new = []"
  "p_nextId w_new = 1" "alive w_new = []" "\<not> p_inTick w_new" "\<not> strict w_new"
  by (simp_all add: w_new_def new_World_def)


lemma run_calls_error: "fst (exec c w) = Inl e \<Longrightarrow> run_calls (c # cs) w = (Some e, snd (exec c w))"
  by simp


lemma add_map:
  assumes "i \<in> set (alive w)" and "\<not> p_inTick w" and "storeMode w = ''map''"
    and "object_assign (object_assign [] (deepCloneObj (defaults C))) (deepCloneObj d) = r"
    and "\<not> rejects C r"
    and "map_of (p_store w) (key C) = None \<and> m = [] \<or> map_of (p_store w) (key C) = Some (MapStore m)"
  shows "snd (add i C d w) =
     w\<lparr>p_store := AList.update (key C) (MapStore (AList.update i r m)) (p_store w),
       p_changed := mark (key C) i (p_changed w), p_cache := []\<rparr>"
  using assms
  by (auto simp: add_def Let_def mapFor_def makeMapStore_def put_store_def markChanged_def
        invalidateCaches_def)


lemma new_records:
  "object_assign (object_assign [] (deepCloneObj (defaults Position))) (deepCloneObj []) =
     [(''x'', VNum 0), (''y'', VNum 0)]"
  "object_assign (object_assign [] (deepCloneObj (defaults Checked))) (deepCloneObj []) =
     [(''x'', VNum 0), (''y'', VNum 0)]"
  "\<not> rejects Position [(''x'', VNum 0), (''y'', VNum 0)]"
  "\<not> rejects Checked [(''x'', VNum 0), (''y'', VNum 0)]"
  by (simp_all add: Position_def Checked_def defineComponent_def object_assign_def deepCloneObj_def
      rejects_def getProp_def)













subsection \<open>The id space\<close>

lemma frame_refl [simp]: "frame w w"
  by (simp add: frame_def)

lemma frame_trans: "frame w w' \<Longrightarrow> frame w' w'' \<Longrightarrow> frame w w''"
  by (simp add: frame_def)

lemma frame_ids_ok: "frame w w' \<Longrightarrow> ids_ok w' = ids_ok w"
  by (simp add: frame_def ids_ok_def)

lemma frame_mapFor: "frame w (snd (mapFor C w))"
  by (simp add: frame_def mapFor_def Let_def split: option.splits)

lemma frame_get: "frame w (snd (get i C w))"
  by (simp add: frame_def get_def mapFor_def put_store_def Let_def split: option.splits)

lemma frame_has: "frame w (snd (has i C w))"
  by (simp add: frame_def has_def mapFor_def Let_def split: option.splits)

lemma frame_add: "frame w (snd (add i C d w))"
  by (simp add: frame_def add_def mapFor_def put_store_def markChanged_def invalidateCaches_def
      command_def Let_def split: option.splits)

lemma frame_remove: "frame w (snd (remove i C w))"
  by (simp add: frame_def remove_def mapFor_def put_store_def markChanged_def invalidateCaches_def
      command_def Let_def split: option.splits)

lemma frame_put_mark: "frame w (markChanged k i (put_store k' st w))"
  by (simp add: frame_def markChanged_def put_store_def)

lemma frame_setRec: "frame w (snd (setRec i C p w))"
proof -
  have g: "frame w (snd (get i C w))" by (rule frame_get)
  show ?thesis
    using g frame_trans[OF g frame_put_mark]
    by (simp add: setRec_def Let_def command_def frame_def split: option.splits)
qed

lemma frame_mutate: "frame w (snd (mutate i C fn w))"
proof -
  have g: "frame w (snd (get i C w))" by (rule frame_get)
  show ?thesis
    using g frame_trans[OF g frame_put_mark]
    by (simp add: mutate_def Let_def command_def frame_def split: option.splits)
qed

lemma frame_inter_loop: "frame w (snd (inter_loop cs res w))"
proof (induction cs arbitrary: res w)
  case Nil
  show ?case by simp
next
  case (Cons c cs)
  show ?case
    using frame_mapFor[of w c] frame_trans[OF frame_mapFor Cons.IH]
    by (simp add: Let_def)
qed

lemma frame_cachedEntityList: "frame w (snd (cachedEntityList spec k w))"
  using frame_inter_loop[of w "s_all spec" None]
  by (simp add: cachedEntityList_def Let_def frame_def split: option.splits)

lemma frame_none_pass: "frame w (snd (none_pass i cs w))"
proof (induction cs arbitrary: w)
  case Nil
  show ?case by simp
next
  case (Cons c cs)
  show ?case
    using frame_has[of w i c] frame_trans[OF frame_has Cons.IH]
    by (simp add: Let_def)
qed

lemma frame_passes: "frame w (snd (passesDynamicFilters w i spec))"
  using frame_none_pass[of w i "s_none spec"] by (simp add: passesDynamicFilters_def Let_def)

lemma frame_get_each: "frame w (snd (get_each i cs w))"
proof (induction cs arbitrary: w)
  case Nil
  show ?case by simp
next
  case (Cons c cs)
  show ?case
    using frame_trans[OF frame_get Cons.IH] by (simp add: Let_def)
qed

lemma frame_tuples: "frame w (snd (tuples spec is w))"
proof (induction "is" arbitrary: w)
  case Nil
  show ?case by simp
next
  case (Cons i "is")
  have a: "frame w (snd (tuples spec is (snd (passesDynamicFilters w i spec))))"
    by (rule frame_trans[OF frame_passes Cons.IH])
  have b: "frame w (snd (tuples spec is (snd (get_each i (s_all spec) (snd (passesDynamicFilters w i spec))))))"
    by (rule frame_trans[OF frame_trans[OF frame_passes frame_get_each] Cons.IH])
  show ?case using a b by (simp add: Let_def)
qed

lemma frame_query: "frame w (snd (query ts w))"
  using frame_trans[OF frame_cachedEntityList frame_tuples]
  by (simp add: query_def Let_def)


lemma ids_ok_create: "ids_ok w \<Longrightarrow> ids_ok (snd (create w))"
proof (cases "p_free w = []")
  case True
  assume ok: "ids_ok w"
  then have "p_nextId w \<notin> set (alive w)" using True by (auto simp: ids_ok_def)
  moreover have "{1..<p_nextId w} \<union> {p_nextId w} = {1..<Suc (p_nextId w)}"
    using ok by (auto simp: ids_ok_def)
  ultimately show ?thesis using ok True
    by (auto simp: create_def ids_ok_def jset_add_def)
next
  case False
  assume ok: "ids_ok w"
  from False obtain xs x where f: "p_free w = xs @ [x]" by (cases "p_free w" rule: rev_cases) auto
  then have "x \<notin> set (alive w)" "x \<notin> set xs" "distinct xs" using ok by (auto simp: ids_ok_def)
  then show ?thesis using ok f
    by (auto simp: create_def ids_ok_def jset_add_def)
qed

lemma create_fresh: "ids_ok w \<Longrightarrow> fst (create w) \<notin> set (alive w)"
proof (cases "p_free w = []")
  case True
  assume "ids_ok w"
  then show ?thesis using True by (auto simp: create_def ids_ok_def)
next
  case False
  assume ok: "ids_ok w"
  from False have "last (p_free w) \<in> set (p_free w)" by simp
  moreover from ok have "set (p_free w) \<inter> set (alive w) = {}" by (simp add: ids_ok_def)
  ultimately have "last (p_free w) \<notin> set (alive w)" by blast
  then show ?thesis using False by (simp add: create_def)
qed

lemma ids_ok_destroy: "ids_ok w \<Longrightarrow> ids_ok (snd (destroy i w))"
proof -
  assume ok: "ids_ok w"
  show ?thesis
  proof (cases "i \<in> set (alive w)")
    case False
    then show ?thesis using ok by (simp add: destroy_def)
  next
    case True
    show ?thesis
    proof (cases "p_inTick w")
      case True
      then show ?thesis using ok by (simp add: destroy_def command_def ids_ok_def)
    next
      case False
      from True ok have "i \<notin> set (p_free w)" by (auto simp: ids_ok_def)
      then show ?thesis using ok True False
        by (auto simp: destroy_live ids_ok_def distinct_removeAll)
    qed
  qed
qed

lemma ids_ok_exec: "ids_ok w \<Longrightarrow> ids_ok (snd (exec c w))"
proof (cases c)
  case Create
  assume "ids_ok w" then show ?thesis by (simp add: Create ids_ok_create)
next
  case (Destroy i)
  assume "ids_ok w" then show ?thesis by (simp add: Destroy ids_ok_destroy)
next
  case (Add i C d)
  assume "ids_ok w" then show ?thesis using frame_ids_ok[OF frame_add] by (simp add: Add)
next
  case (Remove i C)
  assume "ids_ok w" then show ?thesis using frame_ids_ok[OF frame_remove] by (simp add: Remove)
next
  case (SetRec i C p)
  assume "ids_ok w" then show ?thesis using frame_ids_ok[OF frame_setRec] by (simp add: SetRec)
next
  case (Mutate i C fn)
  assume "ids_ok w" then show ?thesis using frame_ids_ok[OF frame_mutate] by (simp add: Mutate)
next
  case (Get i C)
  assume "ids_ok w" then show ?thesis using frame_ids_ok[OF frame_get] by (simp add: Get)
next
  case (Has i C)
  assume "ids_ok w" then show ?thesis using frame_ids_ok[OF frame_has] by (simp add: Has)
next
  case (Query ts)
  assume "ids_ok w" then show ?thesis using frame_ids_ok[OF frame_query] by (simp add: Query)
next
  case (Command x)
  assume "ids_ok w" then show ?thesis by (simp add: Command command_def ids_ok_def)
qed

lemma ids_ok_run_calls: "ids_ok w \<Longrightarrow> ids_ok (snd (run_calls cs w))"
proof (induction cs arbitrary: w)
  case Nil
  then show ?case by simp
next
  case (Cons c cs)
  then show ?case by (cases "fst (exec c w)") (simp_all add: ids_ok_exec)
qed

lemma ids_ok_applyOp: "ids_ok w \<Longrightarrow> ids_ok (applyOp x w)"
proof (cases x)
  case (OpDestroy i)
  assume "ids_ok w" then show ?thesis by (simp add: OpDestroy ids_ok_destroy)
next
  case (OpAdd i C d)
  assume "ids_ok w" then show ?thesis using frame_ids_ok[OF frame_add] by (simp add: OpAdd)
next
  case (OpRemove i C)
  assume "ids_ok w" then show ?thesis using frame_ids_ok[OF frame_remove] by (simp add: OpRemove)
next
  case (OpSet i C p)
  assume "ids_ok w" then show ?thesis using frame_ids_ok[OF frame_setRec] by (simp add: OpSet)
next
  case (OpMutate i C fn)
  assume "ids_ok w" then show ?thesis using frame_ids_ok[OF frame_mutate] by (simp add: OpMutate)
next
  case (OpFn f)
  assume "ids_ok w" then show ?thesis by (simp add: OpFn ids_ok_run_calls)
qed

lemma ids_ok_fold_applyOp: "ids_ok w \<Longrightarrow> ids_ok (fold applyOp xs w)"
  by (induction xs arbitrary: w) (simp_all add: ids_ok_applyOp)

lemma ids_ok_update [simp]:
  "ids_ok (w\<lparr>p_cmd := c\<rparr>) = ids_ok w" "ids_ok (w\<lparr>p_inTick := b\<rparr>) = ids_ok w"
  "ids_ok (w\<lparr>p_changed := ch\<rparr>) = ids_ok w" "ids_ok (w\<lparr>time := t\<rparr>) = ids_ok w"
  "ids_ok (w\<lparr>step := n\<rparr>) = ids_ok w" "ids_ok (w\<lparr>scheduler := s\<rparr>) = ids_ok w"
  by (simp_all add: ids_ok_def)

lemma ids_ok_flush: "ids_ok w \<Longrightarrow> ids_ok (flush w)"
  by (simp add: flush_def Let_def ids_ok_fold_applyOp)

lemma ids_ok_tick: "ids_ok w \<Longrightarrow> ids_ok (snd (tick dt w))"
  by (simp add: tick_def Let_def ids_ok_flush ids_ok_run_calls split: option.splits)

lemma ids_ok_act: "ids_ok w \<Longrightarrow> ids_ok (act a w)"
  by (cases a) (simp_all add: ids_ok_exec ids_ok_tick setScheduler_def)

lemma ids_ok_run: "ids_ok w \<Longrightarrow> ids_ok (run acts w)"
  unfolding run_def by (induction acts arbitrary: w) (simp_all add: ids_ok_act)

lemma ids_ok_new: "ids_ok (new_World mode str hook)"
  by (simp add: ids_ok_def new_World_def)

text \<open>
  Claim C5: after every sequence of calls (\<^verbatim>\<open>create\<close>, \<^verbatim>\<open>destroy\<close> and all others), ticks
  (with their deferred destroys applied at the flush) and scheduler installations on a new
  world, no id is both free and alive, every id handed out so far is free or alive, neither
  the pool nor the alive set holds an id twice, and the id the next \<^verbatim>\<open>create\<close> returns is
  not alive.
\<close>

theorem C5_ids:
  "set (p_free (run acts (new_World mode str hook))) \<inter>
     set (alive (run acts (new_World mode str hook))) = {} \<and>
   set (p_free (run acts (new_World mode str hook))) \<union>
     set (alive (run acts (new_World mode str hook))) =
     {1..<p_nextId (run acts (new_World mode str hook))} \<and>
   distinct (p_free (run acts (new_World mode str hook))) \<and>
   distinct (alive (run acts (new_World mode str hook))) \<and>
   fst (create (run acts (new_World mode str hook))) \<notin>
     set (alive (run acts (new_World mode str hook)))"
  using ids_ok_run[OF ids_ok_new, of acts mode str hook]
    create_fresh[of "run acts (new_World mode str hook)"]
  by (simp add: ids_ok_def)

subsection \<open>The flush\<close>

lemma flush_eq:
  "flush w =
     (if p_cmd w = [] then w
      else (fold applyOp (take MAX_ops (p_cmd w)) (w\<lparr>p_cmd := [], p_inTick := False\<rparr>))
             \<lparr>p_inTick := p_inTick w\<rparr>
             \<lparr>p_cmd := p_cmd (fold applyOp (take MAX_ops (p_cmd w)) (w\<lparr>p_cmd := [], p_inTick := False\<rparr>))
                        @ drop MAX_ops (p_cmd w)\<rparr>)"
proof (cases "length (p_cmd w) > MAX_ops")
  case True
  then have "min MAX_ops (length (p_cmd w)) = MAX_ops" by simp
  with True show ?thesis by (simp add: flush_def Let_def)
next
  case False
  then have m: "min MAX_ops (length (p_cmd w)) = length (p_cmd w)" by simp
  from False have t: "take MAX_ops (p_cmd w) = p_cmd w" "drop MAX_ops (p_cmd w) = []" by simp_all
  show ?thesis using False by (simp add: flush_def Let_def m t)
qed

lemma run_calls_commands:
  "run_calls (map Command ops) w = (None, w\<lparr>p_cmd := p_cmd w @ ops\<rparr>)"
proof (induction ops arbitrary: w)
  case Nil
  show ?case by simp
next
  case (Cons a ops)
  show ?case by (simp add: Cons.IH command_def)
qed

lemma fold_applyOp_noop: "fold applyOp (replicate n (OpFn [])) w = w"
  by (induction n) simp_all

lemma storm_take: "take MAX_ops storm = OpFn [Command (OpDestroy 7)] # replicate 999 (OpFn [])"
  by (simp add: storm_def MAX_ops_def)

lemma storm_drop: "drop MAX_ops storm = [OpDestroy 8]"
  by (simp add: storm_def MAX_ops_def)

lemma fold_storm: "fold applyOp (take MAX_ops storm) w = command (OpDestroy 7) w"
proof -
  have "fold applyOp (take MAX_ops storm) w =
        fold applyOp (replicate 999 (OpFn [])) (applyOp (OpFn [Command (OpDestroy 7)]) w)"
    by (simp add: storm_take)
  also have "\<dots> = applyOp (OpFn [Command (OpDestroy 7)]) w"
    by (rule fold_applyOp_noop)
  finally show ?thesis by simp
qed

lemma flush_storm:
  assumes "p_cmd w = storm"
  shows "flush w = w\<lparr>p_cmd := [OpDestroy 7, OpDestroy 8]\<rparr>"
proof -
  have ne: "p_cmd w \<noteq> []" using assms by (simp add: storm_def)
  show ?thesis
    using ne assms by (simp add: flush_eq fold_storm storm_drop command_def)
qed

lemma tick_storm:
  assumes "scheduler w = Some (map Command storm)" and "onTick w = None" and "p_cmd w = []"
  shows "snd (tick dt w) =
     w\<lparr>time := time w + dt, step := step w + 1, p_cmd := [OpDestroy 7, OpDestroy 8],
       p_changed := [], p_inTick := False\<rparr>"
proof -
  define w1 where "w1 = w\<lparr>time := time w + dt, step := step w + 1, p_inTick := True\<rparr>"
  define w2 where "w2 = snd (run_calls (map Command storm) w1)"
  have w2: "w2 = w1\<lparr>p_cmd := storm\<rparr>"
    by (simp add: w2_def run_calls_commands w1_def assms)
  then have c: "p_cmd w2 = storm" by simp
  have f: "flush w2 = w1\<lparr>p_cmd := [OpDestroy 7, OpDestroy 8]\<rparr>"
    using flush_storm[OF c] by (simp add: w2)
  have "snd (tick dt w) =
        (case onTick ((flush w2)\<lparr>p_changed := [], p_inTick := False\<rparr>) of
           None \<Rightarrow> (flush w2)\<lparr>p_changed := [], p_inTick := False\<rparr>
         | Some hook \<Rightarrow> snd (run_calls hook ((flush w2)\<lparr>p_changed := [], p_inTick := False\<rparr>)))"
    by (simp add: tick_def Let_def assms(1) w1_def w2_def cong: option.case_cong)
  also have "\<dots> = (flush w2)\<lparr>p_changed := [], p_inTick := False\<rparr>"
    by (simp add: f w1_def assms(2))
  finally show ?thesis by (simp add: f w1_def)
qed

text \<open>
  Claim C2.  A flush applies the first 1000 queued operations in queue order
  (\<open>flush_eq\<close>), and the remainder keeps its own order.  But the remainder is pushed
  behind whatever was enqueued during the drain, so the order of the pending operations
  is not preserved: with the scheduler above, \<^verbatim>\<open>['destroy', 8]\<close> is the 1001st command of
  the tick and \<^verbatim>\<open>['destroy', 7]\<close> is enqueued later, by the first command while it is
  drained; after the tick the queue holds \<^verbatim>\<open>['destroy', 7]\<close> before \<^verbatim>\<open>['destroy', 8]\<close>.
\<close>

theorem C2_overflow_after_drain_enqueue:
  "length storm = 1001 \<and> storm ! 1000 = OpDestroy 8 \<and>
   applyOp (storm ! 0) (w_storm\<lparr>p_cmd := []\<rparr>) = command (OpDestroy 7) (w_storm\<lparr>p_cmd := []\<rparr>) \<and>
   p_cmd (snd (tick 0 w_storm)) = [OpDestroy 7, OpDestroy 8]"
proof -
  have s: "scheduler w_storm = Some (map Command storm)" "onTick w_storm = None" "p_cmd w_storm = []"
    by (simp_all add: w_storm_def setScheduler_def)
  have n: "storm ! 1000 = OpDestroy 8"
    using nth_append_length[of "OpFn [Command (OpDestroy 7)] # replicate 999 (OpFn [])" "OpDestroy 8" "[]"]
    by (simp add: storm_def)
  show ?thesis
    using n by (simp add: tick_storm[OF s] storm_def)
qed


subsection \<open>The base list of a query\<close>

lemma intersectSorted_Nil2 [simp]: "intersectSorted a [] = []"
  by (cases a) simp_all

lemma foldl_intersect_Nil [simp]: "foldl intersectSorted [] ls = []"
  by (induction ls) simp_all

lemma set_intersectSorted:
  "sorted a \<Longrightarrow> sorted b \<Longrightarrow> set (intersectSorted a b) = set a \<inter> set b"
proof (induction a b rule: intersectSorted.induct)
  case (1 b)
  show ?case by simp
next
  case (2 A as)
  show ?case by simp
next
  case (3 A as B bs)
  show ?case
  proof (cases "A = B")
    case True
    with 3 show ?thesis by auto
  next
    case False
    show ?thesis
    proof (cases "A < B")
      case True
      with 3 False have "set (intersectSorted as (B # bs)) = set as \<inter> set (B # bs)" by simp
      moreover from True 3(5) have "A \<notin> set (B # bs)" by auto
      ultimately show ?thesis using True False by auto
    next
      case gt: False
      with 3 False have "set (intersectSorted (A # as) bs) = set (A # as) \<inter> set bs" by simp
      moreover from gt False 3(4) have "B \<notin> set (A # as)" by auto
      ultimately show ?thesis using gt False by auto
    qed
  qed
qed

lemma sorted_intersectSorted:
  "sorted a \<Longrightarrow> sorted b \<Longrightarrow> sorted (intersectSorted a b)"
proof (induction a b rule: intersectSorted.induct)
  case (3 A as B bs)
  show ?case
  proof (cases "A = B")
    case True
    with 3 have s: "sorted (intersectSorted as bs)" by simp
    from 3(4,5) have "set (intersectSorted as bs) = set as \<inter> set bs"
      by (intro set_intersectSorted) simp_all
    with 3(4) s True show ?thesis by auto
  next
    case False
    with 3 show ?thesis by (cases "A < B") simp_all
  qed
qed simp_all

lemma sorted_entityIds: "sorted (entityIds st)"
  by (cases st) simp_all

lemma set_entityIds: "set (entityIds st) = {i. store_has i st}"
proof (cases st)
  case (MapStore m)
  have "fst ` set m = {i. map_of m i \<noteq> None}"
    by (auto simp: map_of_eq_None_iff)
  then show ?thesis by (simp add: MapStore jmap_has_def)
next
  case (SoAStore s)
  then show ?thesis by simp
qed

lemma spec_entityIds_mapFor: "spec_entityIds c (snd (mapFor c' w)) = spec_entityIds c w"
  by (auto simp: spec_entityIds_def mapFor_def Let_def update_conv makeSoAStore_def makeMapStore_def
      split: option.splits)

lemma inter_loop_Some:
  "fst (inter_loop cs (Some r) w) = Some (foldl intersectSorted r (map (\<lambda>c. spec_entityIds c w) cs))"
proof (induction cs arbitrary: r w)
  case Nil
  show ?case by simp
next
  case (Cons c cs)
  have m: "map (\<lambda>c'. spec_entityIds c' (snd (mapFor c w))) cs = map (\<lambda>c'. spec_entityIds c' w) cs"
    by (simp add: spec_entityIds_mapFor)
  show ?case
    by (simp add: Let_def Cons.IH m spec_entityIds_def[symmetric])
qed

lemma inter_loop_None:
  "fst (inter_loop (c # cs) None w) = Some (spec_base_list (c # cs) w)"
proof -
  have m: "map (\<lambda>c'. spec_entityIds c' (snd (mapFor c w))) cs = map (\<lambda>c'. spec_entityIds c' w) cs"
    by (simp add: spec_entityIds_mapFor)
  show ?thesis
    by (simp add: Let_def inter_loop_Some m spec_base_list_def spec_entityIds_def[symmetric])
qed


lemma inter_loop_cache: "p_cache (snd (inter_loop cs res w)) = p_cache w \<and> alive (snd (inter_loop cs res w)) = alive w"
proof (induction cs arbitrary: res w)
  case Nil
  show ?case by simp
next
  case (Cons c cs)
  have "p_cache (snd (mapFor c w)) = p_cache w \<and> alive (snd (mapFor c w)) = alive w"
    by (simp add: mapFor_def Let_def split: option.splits)
  then show ?case by (simp add: Let_def Cons.IH)
qed

lemma inter_loop_short:
  "cs1 \<noteq> [] \<Longrightarrow> fst (inter_loop cs1 res w) = Some [] \<Longrightarrow>
   inter_loop (cs1 @ cs2) res w = inter_loop cs1 res w"
proof (induction cs1 arbitrary: res w)
  case Nil
  then show ?case by simp
next
  case (Cons c cs1)
  let ?r = "case res of None \<Rightarrow> entityIds (fst (mapFor c w))
            | Some r \<Rightarrow> intersectSorted r (entityIds (fst (mapFor c w)))"
  show ?case
  proof (cases "?r = []")
    case True
    then show ?thesis by (simp add: Let_def)
  next
    case False
    with Cons.prems(2) have f: "fst (inter_loop cs1 (Some ?r) (snd (mapFor c w))) = Some []"
      by (simp add: Let_def)
    with False have "cs1 \<noteq> []" by (cases cs1) auto
    from Cons.IH[OF this f] False show ?thesis by (simp add: Let_def)
  qed
qed

lemma cachedEntityList_hit:
  "map_of (p_cache w) k = Some l \<Longrightarrow> cachedEntityList spec k w = (l, w)"
  by (simp add: cachedEntityList_def)

lemma cachedEntityList_miss:
  assumes "map_of (p_cache w) k = None"
  shows "fst (cachedEntityList (normalizeTerms ts) k w) = spec_base_list (positive ts) w"
    and "p_cache (snd (cachedEntityList (normalizeTerms ts) k w)) =
           p_cache w @ [(k, spec_base_list (positive ts) w)]"
proof -
  have r: "(if positive ts = [] then sort (alive (snd (inter_loop (positive ts) None w)))
            else (case fst (inter_loop (positive ts) None w) of None \<Rightarrow> [] | Some l \<Rightarrow> l)) =
           spec_base_list (positive ts) w"
  proof (cases "positive ts")
    case Nil
    then show ?thesis by (simp add: spec_base_list_def)
  next
    case (Cons c cs)
    then show ?thesis using inter_loop_None[of c cs w] by (simp del: inter_loop.simps)
  qed
  show "fst (cachedEntityList (normalizeTerms ts) k w) = spec_base_list (positive ts) w"
    using assms r by (simp add: cachedEntityList_def normalizeTerms_def Let_def)
  show "p_cache (snd (cachedEntityList (normalizeTerms ts) k w)) =
           p_cache w @ [(k, spec_base_list (positive ts) w)]"
    using assms r
    by (simp add: cachedEntityList_def normalizeTerms_def Let_def inter_loop_cache update_fresh)
qed

lemma spec_entityIds_has: "set (spec_entityIds c w) = {i. fst (has i c w)}"
  by (simp add: spec_entityIds_def has_def Let_def set_entityIds)

lemma foldl_intersect_sorted:
  "sorted r \<Longrightarrow> (\<forall>l \<in> set ls. sorted l) \<Longrightarrow>
   sorted (foldl intersectSorted r ls) \<and>
   set (foldl intersectSorted r ls) = set r \<inter> (\<Inter>l \<in> set ls. set l)"
proof (induction ls arbitrary: r)
  case Nil
  then show ?case by simp
next
  case (Cons l ls)
  from Cons.prems have s: "sorted (intersectSorted r l)" and e: "set (intersectSorted r l) = set r \<inter> set l"
    by (simp_all add: sorted_intersectSorted set_intersectSorted)
  from Cons.IH[OF s] Cons.prems(2) e show ?case by auto
qed

lemma spec_base_list_sorted: "sorted (spec_base_list cs w)"
proof (cases cs)
  case Nil
  then show ?thesis by (simp add: spec_base_list_def)
next
  case (Cons c rest)
  have "\<forall>l \<in> set (map (\<lambda>c. spec_entityIds c w) rest). sorted l"
    by (simp add: spec_entityIds_def sorted_entityIds)
  with foldl_intersect_sorted[of "spec_entityIds c w" "map (\<lambda>c. spec_entityIds c w) rest"]
  show ?thesis by (simp add: Cons spec_base_list_def spec_entityIds_def sorted_entityIds)
qed

lemma spec_base_list_set:
  "cs \<noteq> [] \<Longrightarrow> set (spec_base_list cs w) = {i. \<forall>c \<in> set cs. fst (has i c w)}"
proof (cases cs)
  case Nil
  assume "cs \<noteq> []"
  with Nil show ?thesis by simp
next
  case (Cons c rest)
  have a: "\<forall>l \<in> set (map (\<lambda>c. spec_entityIds c w) rest). sorted l"
    by (simp add: spec_entityIds_def sorted_entityIds)
  have b: "sorted (spec_entityIds c w)" by (simp add: spec_entityIds_def sorted_entityIds)
  from foldl_intersect_sorted[OF b a]
  have "set (spec_base_list cs w) = set (spec_entityIds c w) \<inter> (\<Inter>l \<in> set (map (\<lambda>c. spec_entityIds c w) rest). set l)"
    by (simp add: Cons spec_base_list_def)
  then show ?thesis by (auto simp: Cons spec_entityIds_has)
qed


lemma set_positive: "set (positive ts) = {c. TComp c \<in> set ts}"
proof (induction ts)
  case Nil
  show ?case by simp
next
  case (Cons t ts)
  show ?case using Cons.IH by (cases t) auto
qed

text \<open>
  Claim C7.  The positive components of a query are its component terms, in the order of
  the terms: \<^verbatim>\<open>Not\<close> and \<^verbatim>\<open>Changed\<close> terms and falsy terms add none; the cache key is computed
  from them.  \<^verbatim>\<open>query\<close> takes its base list from \<^verbatim>\<open>_cachedEntityList\<close> under that key.  When
  the cache has the key, the cached list is returned and the world is unchanged.
  Otherwise the list is the successive intersection of the positive components'
  \<^verbatim>\<open>entityIds()\<close>, and it is stored in the cache under the key: it is all alive ids in
  ascending order when the query has no component term, and otherwise it is ascending and
  holds exactly the ids that have every component the query names.  Each \<^verbatim>\<open>entityIds()\<close>
  is ascending and holds the ids that have the component; \<^verbatim>\<open>intersectSorted\<close> of two
  ascending lists is ascending and holds their common elements; and the loop ends at the
  first empty intermediate result, leaving the components after it untouched.
\<close>

theorem C7_base_list:
  "s_all (normalizeTerms []) = [] \<and>
   s_all (normalizeTerms (TComp c # ts)) = c # s_all (normalizeTerms ts) \<and>
   s_all (normalizeTerms (TNot c # ts)) = s_all (normalizeTerms ts) \<and>
   s_all (normalizeTerms (TChanged c # ts)) = s_all (normalizeTerms ts) \<and>
   s_all (normalizeTerms (TFalsy # ts)) = s_all (normalizeTerms ts) \<and>
   set (s_all (normalizeTerms ts)) = {c. TComp c \<in> set ts} \<and>
   cacheKey (normalizeTerms ts) = cache_key (s_all (normalizeTerms ts)) \<and>
   query ts w =
     tuples (normalizeTerms ts)
       (fst (cachedEntityList (normalizeTerms ts) (cacheKey (normalizeTerms ts)) w))
       (snd (cachedEntityList (normalizeTerms ts) (cacheKey (normalizeTerms ts)) w)) \<and>
   (map_of (p_cache w) k = Some l \<longrightarrow> cachedEntityList (normalizeTerms ts) k w = (l, w)) \<and>
   (map_of (p_cache w) k = None \<longrightarrow>
      fst (cachedEntityList (normalizeTerms ts) k w) = spec_base_list (s_all (normalizeTerms ts)) w \<and>
      p_cache (snd (cachedEntityList (normalizeTerms ts) k w)) =
        p_cache w @ [(k, spec_base_list (s_all (normalizeTerms ts)) w)]) \<and>
   (map_of (p_cache w) k = None \<and> (\<forall>c. TComp c \<notin> set ts) \<longrightarrow>
      fst (cachedEntityList (normalizeTerms ts) k w) = sort (alive w)) \<and>
   (map_of (p_cache w) k = None \<and> (\<exists>c. TComp c \<in> set ts) \<longrightarrow>
      sorted (fst (cachedEntityList (normalizeTerms ts) k w)) \<and>
      set (fst (cachedEntityList (normalizeTerms ts) k w)) =
        {i. \<forall>c. TComp c \<in> set ts \<longrightarrow> fst (has i c w)}) \<and>
   spec_base_list [] w = sort (alive w) \<and>
   spec_base_list (c # cs) w =
     foldl intersectSorted (spec_entityIds c w) (map (\<lambda>c. spec_entityIds c w) cs) \<and>
   sorted (spec_entityIds c w) \<and> set (spec_entityIds c w) = {i. fst (has i c w)} \<and>
   (sorted a \<and> sorted b \<longrightarrow>
      sorted (intersectSorted a b) \<and> set (intersectSorted a b) = set a \<inter> set b) \<and>
   (cs1 \<noteq> [] \<and> fst (inter_loop cs1 None w) = Some [] \<longrightarrow>
      inter_loop (cs1 @ cs2) None w = inter_loop cs1 None w)"
proof (intro conjI impI)
  have sa: "s_all (normalizeTerms ts) = positive ts" for ts by (simp add: normalizeTerms_def)
  show "set (s_all (normalizeTerms ts)) = {c. TComp c \<in> set ts}"
    by (simp only: sa set_positive)
  show "query ts w =
     tuples (normalizeTerms ts)
       (fst (cachedEntityList (normalizeTerms ts) (cacheKey (normalizeTerms ts)) w))
       (snd (cachedEntityList (normalizeTerms ts) (cacheKey (normalizeTerms ts)) w))"
    by (simp add: query_def Let_def)
  show "sorted (spec_entityIds c w)" by (simp add: spec_entityIds_def sorted_entityIds)
  show "set (spec_entityIds c w) = {i. fst (has i c w)}" by (rule spec_entityIds_has)
  show "spec_base_list [] w = sort (alive w)" by (simp add: spec_base_list_def)
  show "spec_base_list (c # cs) w =
     foldl intersectSorted (spec_entityIds c w) (map (\<lambda>c. spec_entityIds c w) cs)"
    by (simp add: spec_base_list_def)
  {
    assume "map_of (p_cache w) k = Some l"
    then show "cachedEntityList (normalizeTerms ts) k w = (l, w)" by (rule cachedEntityList_hit)
  }
  {
    assume m: "map_of (p_cache w) k = None"
    show "fst (cachedEntityList (normalizeTerms ts) k w) = spec_base_list (s_all (normalizeTerms ts)) w"
      unfolding sa by (rule cachedEntityList_miss(1)[OF m])
    show "p_cache (snd (cachedEntityList (normalizeTerms ts) k w)) =
          p_cache w @ [(k, spec_base_list (s_all (normalizeTerms ts)) w)]"
      unfolding sa by (rule cachedEntityList_miss(2)[OF m])
  }
  {
    assume "map_of (p_cache w) k = None \<and> (\<forall>c. TComp c \<notin> set ts)"
    then have m: "map_of (p_cache w) k = None" and "{c. TComp c \<in> set ts} = {}" by auto
    then have "set (positive ts) = {}" by (simp add: set_positive)
    then have "positive ts = []" by simp
    with cachedEntityList_miss(1)[OF m, of ts]
    show "fst (cachedEntityList (normalizeTerms ts) k w) = sort (alive w)"
      by (simp add: spec_base_list_def)
  }
  {
    assume "map_of (p_cache w) k = None \<and> (\<exists>c. TComp c \<in> set ts)"
    then have m: "map_of (p_cache w) k = None" and "{c. TComp c \<in> set ts} \<noteq> {}" by auto
    then have "set (positive ts) \<noteq> {}" by (simp add: set_positive)
    then have ne: "positive ts \<noteq> []" by auto
    have e: "fst (cachedEntityList (normalizeTerms ts) k w) = spec_base_list (positive ts) w"
      by (rule cachedEntityList_miss(1)[OF m])
    show "sorted (fst (cachedEntityList (normalizeTerms ts) k w))"
      unfolding e by (rule spec_base_list_sorted)
    have "set (spec_base_list (positive ts) w) = {i. \<forall>c \<in> set (positive ts). fst (has i c w)}"
      by (rule spec_base_list_set[OF ne])
    also have "\<dots> = {i. \<forall>c. TComp c \<in> set ts \<longrightarrow> fst (has i c w)}"
      unfolding set_positive by auto
    finally show "set (fst (cachedEntityList (normalizeTerms ts) k w)) =
        {i. \<forall>c. TComp c \<in> set ts \<longrightarrow> fst (has i c w)}"
      unfolding e .
  }
  {
    assume s: "sorted a \<and> sorted b"
    then show "sorted (intersectSorted a b)" by (simp add: sorted_intersectSorted)
    from s show "set (intersectSorted a b) = set a \<inter> set b" by (simp add: set_intersectSorted)
  }
  {
    assume "cs1 \<noteq> [] \<and> fst (inter_loop cs1 None w) = Some []"
    then show "inter_loop (cs1 @ cs2) None w = inter_loop cs1 None w"
      by (simp add: inter_loop_short)
  }
qed (simp_all add: normalizeTerms_def)

lemma keys_differ: "key Checked \<noteq> key Position" "key Position \<noteq> key Checked"
  "key Guarded \<noteq> key Position" "key Guarded \<noteq> key Checked"
  "key Position \<noteq> key Guarded" "key Checked \<noteq> key Guarded"
  by (simp_all add: Checked_def Position_def Guarded_def defineComponent_def)

lemma w_three_0:
  "snd (create (snd (create (snd (create w_new))))) = w_new\<lparr>p_nextId := 4, alive := [1, 2, 3]\<rparr>"
  by (simp add: w_new_def new_World_def create_def jset_add_def)

lemma w_three_1:
  "snd (add 3 Position [] (w_new\<lparr>p_nextId := 4, alive := [1, 2, 3]\<rparr>)) =
   w_new\<lparr>p_nextId := 4, alive := [1, 2, 3],
      p_store := [(key Position, MapStore [(3, [(''x'', VNum 0), (''y'', VNum 0)])])],
      p_changed := [(key Position, [3])]\<rparr>"
  by (subst add_map[where r="[(''x'', VNum 0), (''y'', VNum 0)]" and m="[]"])
     (simp_all add: new_records mark_def w_new_def new_World_def)

lemma w_three_2:
  "snd (add 1 Position [] (w_new\<lparr>p_nextId := 4, alive := [1, 2, 3],
      p_store := [(key Position, MapStore [(3, [(''x'', VNum 0), (''y'', VNum 0)])])],
      p_changed := [(key Position, [3])]\<rparr>)) =
   w_new\<lparr>p_nextId := 4, alive := [1, 2, 3],
      p_store := [(key Position, MapStore [(3, [(''x'', VNum 0), (''y'', VNum 0)]),
                                           (1, [(''x'', VNum 0), (''y'', VNum 0)])])],
      p_changed := [(key Position, [3, 1])]\<rparr>"
  by (subst add_map[where r="[(''x'', VNum 0), (''y'', VNum 0)]"
        and m="[(3, [(''x'', VNum 0), (''y'', VNum 0)])]"])
     (simp_all add: new_records mark_def jset_add_def w_new_def new_World_def)

lemma w_three_3:
  "snd (add 3 Checked [] (w_new\<lparr>p_nextId := 4, alive := [1, 2, 3],
      p_store := [(key Position, MapStore [(3, [(''x'', VNum 0), (''y'', VNum 0)]),
                                           (1, [(''x'', VNum 0), (''y'', VNum 0)])])],
      p_changed := [(key Position, [3, 1])]\<rparr>)) =
   w_new\<lparr>p_nextId := 4, alive := [1, 2, 3],
      p_store := [(key Position, MapStore [(3, [(''x'', VNum 0), (''y'', VNum 0)]),
                                           (1, [(''x'', VNum 0), (''y'', VNum 0)])]),
                  (key Checked, MapStore [(3, [(''x'', VNum 0), (''y'', VNum 0)])])],
      p_changed := [(key Position, [3, 1]), (key Checked, [3])]\<rparr>"
  by (subst add_map[where r="[(''x'', VNum 0), (''y'', VNum 0)]" and m="[]"])
     (simp_all add: new_records mark_def jset_add_def keys_differ w_new_def new_World_def)

lemma w_three_4:
  "snd (add 2 Checked [] (w_new\<lparr>p_nextId := 4, alive := [1, 2, 3],
      p_store := [(key Position, MapStore [(3, [(''x'', VNum 0), (''y'', VNum 0)]),
                                           (1, [(''x'', VNum 0), (''y'', VNum 0)])]),
                  (key Checked, MapStore [(3, [(''x'', VNum 0), (''y'', VNum 0)])])],
      p_changed := [(key Position, [3, 1]), (key Checked, [3])]\<rparr>)) =
   w_new\<lparr>p_nextId := 4, alive := [1, 2, 3],
      p_store := [(key Position, MapStore [(3, [(''x'', VNum 0), (''y'', VNum 0)]),
                                           (1, [(''x'', VNum 0), (''y'', VNum 0)])]),
                  (key Checked, MapStore [(3, [(''x'', VNum 0), (''y'', VNum 0)]),
                                          (2, [(''x'', VNum 0), (''y'', VNum 0)])])],
      p_changed := [(key Position, [3, 1]), (key Checked, [3, 2])]\<rparr>"
  by (subst add_map[where r="[(''x'', VNum 0), (''y'', VNum 0)]"
        and m="[(3, [(''x'', VNum 0), (''y'', VNum 0)])]"])
     (simp_all add: new_records mark_def jset_add_def keys_differ w_new_def new_World_def)

lemma w_three_eval:
  "w_three = w_new\<lparr>p_nextId := 4, alive := [1, 2, 3],
      p_store := [(key Position, MapStore [(3, [(''x'', VNum 0), (''y'', VNum 0)]),
                                           (1, [(''x'', VNum 0), (''y'', VNum 0)])]),
                  (key Checked, MapStore [(3, [(''x'', VNum 0), (''y'', VNum 0)]),
                                          (2, [(''x'', VNum 0), (''y'', VNum 0)])])],
      p_changed := [(key Position, [3, 1]), (key Checked, [3, 2])]\<rparr>"
  by (simp only: w_three_def w_three_0 w_three_1 w_three_2 w_three_3 w_three_4)

lemma w_three_keys:
  "cacheKey (normalizeTerms [TComp Position, TNot Checked]) = ''Position''"
  "cacheKey (normalizeTerms [TNot Position]) = ''*''"
  by (simp_all add: normalizeTerms_def cache_key_def Position_def Checked_def defineComponent_def)

lemma w_three_key2:
  "cacheKey (normalizeTerms [TComp Position, TFalsy, TComp Checked]) = ''Checked|Position''"
  by (simp add: normalizeTerms_def cache_key_def Position_def Checked_def defineComponent_def)

lemma w_three_ids:
  "spec_entityIds Position w_three = [1, 3]"
  "spec_entityIds Checked w_three = [2, 3]"
  "sort (alive w_three) = [1, 2, 3]"
  "p_cache w_three = []"
  by (simp_all add: spec_entityIds_def mapFor_def w_three_eval keys_differ)


lemma w_three_lists:
  "cachedEntityList (normalizeTerms [TComp Position, TNot Checked]) ''Position'' w_three =
     ([1, 3], w_three\<lparr>p_cache := [(''Position'', [1, 3])]\<rparr>)"
  "cachedEntityList (normalizeTerms [TNot Position]) ''*'' w_three =
     ([1, 2, 3], w_three\<lparr>p_cache := [(''*'', [1, 2, 3])]\<rparr>)"
  "inter_loop [Guarded] None w_three =
     (Some [], w_three\<lparr>p_store := p_store w_three @ [(key Guarded, MapStore [])]\<rparr>)"
  by (simp_all add: cachedEntityList_def normalizeTerms_def mapFor_def Let_def keys_differ
      w_three_eval makeMapStore_def w_new_def new_World_def)

lemma w_three_rows:
  "fst (tuples (normalizeTerms [TComp Position, TNot Checked]) [1, 3]
          (w_three\<lparr>p_cache := [(''Position'', [1, 3])]\<rparr>)) =
     [(1, [Some (Plain [(''x'', VNum 0), (''y'', VNum 0)])])]"
  "fst (tuples (normalizeTerms [TNot Position]) [1, 2, 3]
          (w_three\<lparr>p_cache := [(''*'', [1, 2, 3])]\<rparr>)) = [(2, [])]"
  by (simp_all add: normalizeTerms_def passesDynamicFilters_def has_def get_def mapFor_def Let_def
      keys_differ w_three_eval jmap_has_def put_store_def w_new_def new_World_def)

theorem C7_base_list_witness:
  "s_all (normalizeTerms [TComp Position, TNot Checked]) = [Position] \<and>
   cacheKey (normalizeTerms [TComp Position, TNot Checked]) = ''Position'' \<and>
   map_of (p_cache w_three) ''Position'' = None \<and>
   (\<exists>c. TComp c \<in> set [TComp Position, TNot Checked]) \<and>
   spec_entityIds Position w_three = [1, 3] \<and>
   fst (cachedEntityList (normalizeTerms [TComp Position, TNot Checked]) ''Position'' w_three) =
     [1, 3] \<and>
   p_cache (snd (cachedEntityList (normalizeTerms [TComp Position, TNot Checked]) ''Position'' w_three)) =
     [(''Position'', [1, 3])] \<and>
   {i. \<forall>c. TComp c \<in> set [TComp Position, TNot Checked] \<longrightarrow> fst (has i c w_three)} = {1, 3} \<and>
   sort (alive w_three) = [1, 2, 3] \<and>
   fst (query [TComp Position, TNot Checked] w_three) =
     [(1, [Some (Plain [(''x'', VNum 0), (''y'', VNum 0)])])] \<and>
   s_all (normalizeTerms [TComp Position, TFalsy, TComp Checked]) = [Position, Checked] \<and>
   cacheKey (normalizeTerms [TComp Position, TFalsy, TComp Checked]) = ''Checked|Position'' \<and>
   map_of (p_cache w_three) ''Checked|Position'' = None \<and>
   spec_entityIds Checked w_three = [2, 3] \<and>
   fst (cachedEntityList (normalizeTerms [TComp Position, TFalsy, TComp Checked])
          ''Checked|Position'' w_three) = [3] \<and>
   {i. \<forall>c. TComp c \<in> set [TComp Position, TFalsy, TComp Checked] \<longrightarrow> fst (has i c w_three)} = {3} \<and>
   (\<forall>c. TComp c \<notin> set [TNot Position]) \<and>
   cacheKey (normalizeTerms [TNot Position]) = ''*'' \<and>
   map_of (p_cache w_three) ''*'' = None \<and>
   fst (cachedEntityList (normalizeTerms [TNot Position]) ''*'' w_three) = [1, 2, 3] \<and>
   fst (query [TNot Position] w_three) = [(2, [])] \<and>
   map_of (p_cache (w_three\<lparr>p_cache := [(''Position'', [1, 3])]\<rparr>)) ''Position'' = Some [1, 3] \<and>
   cachedEntityList (normalizeTerms [TComp Position, TNot Checked]) ''Position''
       (w_three\<lparr>p_cache := [(''Position'', [1, 3])]\<rparr>) =
     ([1, 3], w_three\<lparr>p_cache := [(''Position'', [1, 3])]\<rparr>) \<and>
   sorted [1, 2, 3 :: nat] \<and> sorted [2, 3, 4 :: nat] \<and>
   intersectSorted [1, 2, 3] [2, 3, 4] = [2, 3] \<and>
   [Guarded] \<noteq> [] \<and> fst (inter_loop [Guarded] None w_three) = Some [] \<and>
   inter_loop ([Guarded] @ [Position]) None w_three = inter_loop [Guarded] None w_three"
proof -
  note A = C7_base_list[where w=w_three and ts="[TComp Position, TNot Checked]" and k="''Position''"
      and c=Position and cs="[]" and a="[1, 2, 3]" and b="[2, 3, 4]" and ?cs1.0="[Guarded]"
      and ?cs2.0="[Position]"]
  note B = C7_base_list[where w=w_three and ts="[TComp Position, TFalsy, TComp Checked]"
      and k="''Checked|Position''" and c=Position and cs="[Checked]"]
  note C = C7_base_list[where w=w_three and ts="[TNot Position]" and k="''*''"]
  note D = C7_base_list[where w="w_three\<lparr>p_cache := [(''Position'', [1, 3])]\<rparr>"
      and ts="[TComp Position, TNot Checked]" and k="''Position''" and l="[1, 3]"]
  have sa: "s_all (normalizeTerms [TComp Position, TNot Checked]) = [Position]"
    "s_all (normalizeTerms [TComp Position, TFalsy, TComp Checked]) = [Position, Checked]"
    by (simp_all add: normalizeTerms_def)
  have m: "map_of (p_cache w_three) ''Position'' = None"
    "map_of (p_cache w_three) ''Checked|Position'' = None"
    "map_of (p_cache w_three) ''*'' = None"
    by (simp_all add: w_three_ids)
  have ex: "\<exists>c. TComp c \<in> set [TComp Position, TNot Checked]"
    "\<exists>c. TComp c \<in> set [TComp Position, TFalsy, TComp Checked]"
    "\<forall>c. TComp c \<notin> set [TNot Position]"
    by auto
  have a1: "fst (cachedEntityList (normalizeTerms [TComp Position, TNot Checked]) ''Position'' w_three) =
     [1, 3]"
    and a2: "p_cache (snd (cachedEntityList (normalizeTerms [TComp Position, TNot Checked]) ''Position'' w_three)) =
     [(''Position'', [1, 3])]"
    using A[THEN conjunct2, THEN conjunct2, THEN conjunct2, THEN conjunct2, THEN conjunct2, THEN conjunct2, THEN conjunct2, THEN conjunct2, THEN conjunct2, THEN conjunct1] m(1) A[THEN conjunct2, THEN conjunct2, THEN conjunct2, THEN conjunct2, THEN conjunct2, THEN conjunct2, THEN conjunct2, THEN conjunct2, THEN conjunct2, THEN conjunct2, THEN conjunct2, THEN conjunct2, THEN conjunct2, THEN conjunct1] by (simp_all add: sa w_three_ids)
  have a3: "{i. \<forall>c. TComp c \<in> set [TComp Position, TNot Checked] \<longrightarrow> fst (has i c w_three)} = {1, 3}"
  proof -
    from A[THEN conjunct2, THEN conjunct2, THEN conjunct2, THEN conjunct2, THEN conjunct2, THEN conjunct2, THEN conjunct2, THEN conjunct2, THEN conjunct2, THEN conjunct2, THEN conjunct2, THEN conjunct1] m(1) ex(1)
    have "set (fst (cachedEntityList (normalizeTerms [TComp Position, TNot Checked]) ''Position'' w_three)) =
          {i. \<forall>c. TComp c \<in> set [TComp Position, TNot Checked] \<longrightarrow> fst (has i c w_three)}"
      by blast
    then show ?thesis unfolding a1 by auto
  qed
  have a4: "fst (query [TComp Position, TNot Checked] w_three) =
     [(1, [Some (Plain [(''x'', VNum 0), (''y'', VNum 0)])])]"
    by (simp only: A[THEN conjunct2, THEN conjunct2, THEN conjunct2, THEN conjunct2, THEN conjunct2, THEN conjunct2, THEN conjunct2, THEN conjunct1] w_three_keys w_three_lists fst_conv snd_conv w_three_rows)
  have b1: "fst (cachedEntityList (normalizeTerms [TComp Position, TFalsy, TComp Checked])
          ''Checked|Position'' w_three) = [3]"
    using B[THEN conjunct2, THEN conjunct2, THEN conjunct2, THEN conjunct2, THEN conjunct2, THEN conjunct2, THEN conjunct2, THEN conjunct2, THEN conjunct2, THEN conjunct1] m(2) B[THEN conjunct2, THEN conjunct2, THEN conjunct2, THEN conjunct2, THEN conjunct2, THEN conjunct2, THEN conjunct2, THEN conjunct2, THEN conjunct2, THEN conjunct2, THEN conjunct2, THEN conjunct2, THEN conjunct2, THEN conjunct1] by (simp add: sa w_three_ids)
  have b3: "{i. \<forall>c. TComp c \<in> set [TComp Position, TFalsy, TComp Checked] \<longrightarrow> fst (has i c w_three)} = {3}"
  proof -
    from B[THEN conjunct2, THEN conjunct2, THEN conjunct2, THEN conjunct2, THEN conjunct2, THEN conjunct2, THEN conjunct2, THEN conjunct2, THEN conjunct2, THEN conjunct2, THEN conjunct2, THEN conjunct1] m(2) ex(2)
    have "set (fst (cachedEntityList (normalizeTerms [TComp Position, TFalsy, TComp Checked])
          ''Checked|Position'' w_three)) =
          {i. \<forall>c. TComp c \<in> set [TComp Position, TFalsy, TComp Checked] \<longrightarrow> fst (has i c w_three)}"
      by blast
    then show ?thesis unfolding b1 by auto
  qed
  have c1: "fst (cachedEntityList (normalizeTerms [TNot Position]) ''*'' w_three) = [1, 2, 3]"
    using C[THEN conjunct2, THEN conjunct2, THEN conjunct2, THEN conjunct2, THEN conjunct2, THEN conjunct2, THEN conjunct2, THEN conjunct2, THEN conjunct2, THEN conjunct2, THEN conjunct1] m(3) ex(3) by (simp add: w_three_ids)
  have c2: "fst (query [TNot Position] w_three) = [(2, [])]"
    by (simp only: C[THEN conjunct2, THEN conjunct2, THEN conjunct2, THEN conjunct2, THEN conjunct2, THEN conjunct2, THEN conjunct2, THEN conjunct1] w_three_keys w_three_lists fst_conv snd_conv w_three_rows)
  have d0: "map_of (p_cache (w_three\<lparr>p_cache := [(''Position'', [1, 3])]\<rparr>)) ''Position'' = Some [1, 3]"
    by simp
  have d1: "cachedEntityList (normalizeTerms [TComp Position, TNot Checked]) ''Position''
       (w_three\<lparr>p_cache := [(''Position'', [1, 3])]\<rparr>) =
     ([1, 3], w_three\<lparr>p_cache := [(''Position'', [1, 3])]\<rparr>)"
    using D[THEN conjunct2, THEN conjunct2, THEN conjunct2, THEN conjunct2, THEN conjunct2, THEN conjunct2, THEN conjunct2, THEN conjunct2, THEN conjunct1] d0 by (rule mp)
  have i0: "sorted [1, 2, 3 :: nat]" "sorted [2, 3, 4 :: nat]" by simp_all
  have i1: "intersectSorted [1, 2, 3] [2, 3, 4] = [2, 3]" by simp
  have g0: "[Guarded] \<noteq> []" by simp
  have g1: "fst (inter_loop [Guarded] None w_three) = Some []"
    by (simp only: w_three_lists fst_conv)
  have g2: "inter_loop ([Guarded] @ [Position]) None w_three = inter_loop [Guarded] None w_three"
    using A[THEN conjunct2, THEN conjunct2, THEN conjunct2, THEN conjunct2, THEN conjunct2, THEN conjunct2, THEN conjunct2, THEN conjunct2, THEN conjunct2, THEN conjunct2, THEN conjunct2, THEN conjunct2, THEN conjunct2, THEN conjunct2, THEN conjunct2, THEN conjunct2, THEN conjunct2] g0 g1 by blast
  show ?thesis
    using sa(1) w_three_keys(1) m(1) ex(1) w_three_ids(1) a1 a2 a3 w_three_ids(3) a4
      sa(2) w_three_key2 m(2) w_three_ids(2) b1 b3 ex(3) w_three_keys(2) m(3) c1 c2 d0 d1 i0 i1
      g0 g1 g2
    by (intro conjI) assumption+
qed

lemma cache_after_mutation:
  "p_cache (snd (create w)) = p_cache w"
  "i \<in> set (alive w) \<Longrightarrow> \<not> p_inTick w \<Longrightarrow> p_cache (snd (destroy i w)) = []"
  "fst (add i C d w) = Inr (RObj r) \<Longrightarrow> p_cache (snd (add i C d w)) = []"
  "fst (remove i C w) = Inr (RBool True) \<Longrightarrow> p_cache (snd (remove i C w)) = []"
proof -
  show "p_cache (snd (create w)) = p_cache w" by (simp add: create_def)
  show "i \<in> set (alive w) \<Longrightarrow> \<not> p_inTick w \<Longrightarrow> p_cache (snd (destroy i w)) = []"
    by (simp add: destroy_live)
  show "fst (add i C d w) = Inr (RObj r) \<Longrightarrow> p_cache (snd (add i C d w)) = []"
    by (simp add: add_def Let_def invalidateCaches_def split: if_splits)
  show "fst (remove i C w) = Inr (RBool True) \<Longrightarrow> p_cache (snd (remove i C w)) = []"
    by (simp add: remove_def Let_def invalidateCaches_def split: if_splits)
qed

text \<open>
  Claim C1.  \<^verbatim>\<open>destroy\<close>, \<^verbatim>\<open>add\<close> and a \<^verbatim>\<open>remove\<close> that removes clear the whole cache, but
  \<^verbatim>\<open>create\<close> does not touch it (\<open>cache_after_mutation\<close>).  On a new world, \<^verbatim>\<open>query()\<close> caches the empty list under
  \<^verbatim>\<open>'*'\<close>; after \<^verbatim>\<open>create()\<close> the entity 1 is alive and \<^verbatim>\<open>query()\<close> still yields no row,
  where the same query without the earlier one yields the row of entity 1.
\<close>

theorem C1_create_leaves_stale_cache:
  "fst (query [] w_new) = [] \<and>
   alive (snd (create (snd (query [] w_new)))) = [1] \<and>
   fst (query [] (snd (create (snd (query [] w_new))))) = [] \<and>
   fst (query [] (snd (create w_new))) = [(1, [])]"
  by (simp add: query_def normalizeTerms_def cache_key_def cachedEntityList_def Let_def
      create_def jset_add_def passesDynamicFilters_def)


subsection \<open>The order of systems\<close>

lemma jmap_has_keys: "jmap_has k g = (k \<in> keys g)"
  by (simp add: jmap_has_def keys_def map_of_eq_None_iff)

lemma set_jset_add [simp]: "set (jset_add x xs) = insert x (set xs)"
  by (auto simp: jset_add_def)

lemma keys_map_entry [simp]: "keys (AList.map_entry k f g) = keys g"
  by (simp add: keys_def dom_map_entry)

lemma keys_update [simp]: "keys (AList.update k v g) = insert k (keys g)"
  by (simp add: keys_def dom_update)

lemma keys_iff: "k \<in> keys g \<longleftrightarrow> map_of g k \<noteq> None"
  by (simp add: keys_def map_of_eq_None_iff)

lemma succs_map_entry:
  "succs (AList.map_entry d f g) u = (if u = d \<and> d \<in> keys g then f (succs g d) else succs g u)"
proof (cases "map_of g d")
  case None
  then have "d \<notin> keys g" by (simp add: keys_iff)
  moreover from None have "map_of (AList.map_entry d f g) = map_of g"
    by (simp add: map_of_map_entry fun_eq_iff)
  ultimately show ?thesis by (simp add: succs_def)
next
  case (Some x)
  then have "d \<in> keys g" by (simp add: keys_iff)
  moreover from Some have "map_of (AList.map_entry d f g) = (map_of g)(d \<mapsto> f x)"
    by (simp add: map_of_map_entry)
  ultimately show ?thesis using Some by (simp add: succs_def)
qed

lemma edges_map_entry:
  "d \<in> keys g \<Longrightarrow> edges (AList.map_entry d (jset_add s) g) = insert (d, s) (edges g)"
  by (auto simp: edges_def succs_map_entry split: if_splits)


lemma fold_after:
  "keys (fold (\<lambda>dep g. if jmap_has dep g then AList.map_entry dep (jset_add s) g else g) deps g) = keys g \<and>
   edges (fold (\<lambda>dep g. if jmap_has dep g then AList.map_entry dep (jset_add s) g else g) deps g) =
     edges g \<union> (set deps \<inter> keys g) \<times> {s}"
proof (induction deps arbitrary: g)
  case Nil
  show ?case by simp
next
  case (Cons d deps)
  let ?g1 = "if jmap_has d g then AList.map_entry d (jset_add s) g else g"
  have k: "keys ?g1 = keys g" by simp
  have e: "edges ?g1 = edges g \<union> ({d} \<inter> keys g) \<times> {s}"
    by (simp add: jmap_has_keys edges_map_entry)
  have "fold (\<lambda>dep g. if jmap_has dep g then AList.map_entry dep (jset_add s) g else g) (d # deps) g =
        fold (\<lambda>dep g. if jmap_has dep g then AList.map_entry dep (jset_add s) g else g) deps ?g1"
    by simp
  moreover have "(edges g \<union> ({d} \<inter> keys g) \<times> {s}) \<union> (set deps \<inter> keys g) \<times> {s} =
        edges g \<union> (set (d # deps) \<inter> keys g) \<times> {s}"
    by auto
  ultimately show ?case using Cons.IH[of ?g1] k e by (simp only:)
qed

lemma map_entry_absent: "s \<notin> keys g \<Longrightarrow> AList.map_entry s f g = g"
  by (induction g) (auto simp: keys_def)

lemma fold_before:
  "keys (fold (\<lambda>dep g. if jmap_has dep g then AList.map_entry s (jset_add dep) g else g) deps g) = keys g \<and>
   edges (fold (\<lambda>dep g. if jmap_has dep g then AList.map_entry s (jset_add dep) g else g) deps g) =
     edges g \<union> ({s} \<inter> keys g) \<times> (set deps \<inter> keys g)"
proof (induction deps arbitrary: g)
  case Nil
  show ?case by simp
next
  case (Cons d deps)
  let ?g1 = "if jmap_has d g then AList.map_entry s (jset_add d) g else g"
  have k: "keys ?g1 = keys g" by simp
  have e: "edges ?g1 = edges g \<union> ({s} \<inter> keys g) \<times> ({d} \<inter> keys g)"
  proof (cases "s \<in> keys g")
    case True
    then show ?thesis by (simp add: jmap_has_keys edges_map_entry)
  next
    case False
    then show ?thesis by (simp add: map_entry_absent)
  qed
  have "fold (\<lambda>dep g. if jmap_has dep g then AList.map_entry s (jset_add dep) g else g) (d # deps) g =
        fold (\<lambda>dep g. if jmap_has dep g then AList.map_entry s (jset_add dep) g else g) deps ?g1"
    by simp
  moreover have "(edges g \<union> ({s} \<inter> keys g) \<times> ({d} \<inter> keys g)) \<union> ({s} \<inter> keys g) \<times> (set deps \<inter> keys g) =
        edges g \<union> ({s} \<inter> keys g) \<times> (set (d # deps) \<inter> keys g)"
    by auto
  ultimately show ?case using Cons.IH[of ?g1] k e by (simp only:)
qed

lemma add_edges_keys_edges:
  "keys (add_edges r g) = keys g \<and>
   edges (add_edges r g) =
     edges g \<union> (set (after r) \<inter> keys g) \<times> {system r}
             \<union> ({system r} \<inter> keys g) \<times> (set (before r) \<inter> keys g)"
  using fold_after[of "system r" "after r" g]
    fold_before[of "system r" "before r"
      "fold (\<lambda>dep g. if jmap_has dep g then AList.map_entry dep (jset_add (system r)) g else g) (after r) g"]
  by (simp add: add_edges_def Let_def)

lemma hints_Nil [simp]: "hints K [] = {}"
  by (simp add: hints_def)

lemma hints_Cons: "hints K (r # rs) = hints K [r] \<union> hints K rs"
  by (auto simp: hints_def)

lemma add_edges_hints:
  assumes "system r \<in> keys g"
  shows "keys (add_edges r g) = keys g" and "edges (add_edges r g) = edges g \<union> hints (keys g) [r]"
proof -
  show "keys (add_edges r g) = keys g" by (simp add: add_edges_keys_edges)
  have "(set (after r) \<inter> keys g) \<times> {system r}
          \<union> ({system r} \<inter> keys g) \<times> (set (before r) \<inter> keys g) =
        hints (keys g) [r]"
    using assms by (auto simp: hints_def)
  then show "edges (add_edges r g) = edges g \<union> hints (keys g) [r]"
    using add_edges_keys_edges[of r g] by (simp add: Un_assoc)
qed

lemma fold_add_edges:
  "system ` set rs \<subseteq> keys g \<Longrightarrow>
   keys (fold add_edges rs g) = keys g \<and> edges (fold add_edges rs g) = edges g \<union> hints (keys g) rs"
proof (induction rs arbitrary: g)
  case Nil
  show ?case by simp
next
  case (Cons r rs)
  from Cons.prems have r: "system r \<in> keys g" by simp
  have k: "keys (add_edges r g) = keys g" by (rule add_edges_hints(1)[OF r])
  have e: "edges (add_edges r g) = edges g \<union> hints (keys g) [r]" by (rule add_edges_hints(2)[OF r])
  from Cons.prems k have "system ` set rs \<subseteq> keys (add_edges r g)" by simp
  from Cons.IH[OF this]
  have "keys (fold add_edges rs (add_edges r g)) = keys g"
    and "edges (fold add_edges rs (add_edges r g)) = (edges g \<union> hints (keys g) [r]) \<union> hints (keys g) rs"
    by (simp_all add: k e)
  then show ?case by (simp add: hints_Cons[of "keys g" r rs] Un_assoc)
qed

lemma graph_nodes_keys_aux:
  "keys (fold (\<lambda>r. AList.update (system r) []) rs g) = keys g \<union> system ` set rs"
  by (induction rs arbitrary: g) auto

lemma graph_nodes_succs_aux:
  "(\<forall>u. succs g u = []) \<Longrightarrow> succs (fold (\<lambda>r. AList.update (system r) []) rs g) u = []"
proof (induction rs arbitrary: g)
  case Nil
  then show ?case by simp
next
  case (Cons r rs)
  have "\<forall>u. succs (AList.update (system r) [] g) u = []"
    using Cons.prems by (simp add: succs_def update_conv)
  from Cons.IH[OF this] show ?case by simp
qed

lemma graph_nodes_props:
  "keys (graph_nodes nodes) = registered nodes" "edges (graph_nodes nodes) = {}"
proof -
  show "keys (graph_nodes nodes) = registered nodes"
    using graph_nodes_keys_aux[of nodes "[]"] by (simp add: graph_nodes_def registered_def keys_def)
  have "\<forall>u. succs [] u = []" by (simp add: succs_def)
  then have "succs (graph_nodes nodes) u = []" for u
    unfolding graph_nodes_def by (rule graph_nodes_succs_aux)
  then show "edges (graph_nodes nodes) = {}"
    by (simp add: edges_def)
qed

lemma build_graph_props:
  "keys (build_graph nodes) = registered nodes" "edges (build_graph nodes) = hint_edges nodes"
proof -
  have s: "system ` set nodes \<subseteq> keys (graph_nodes nodes)"
    by (simp add: graph_nodes_props registered_def)
  from fold_add_edges[OF s] show "keys (build_graph nodes) = registered nodes"
    by (simp add: build_graph_def graph_nodes_props)
  have "hints (registered nodes) nodes = hint_edges nodes"
    by (simp add: hints_def hint_edges_def)
  with fold_add_edges[OF s] show "edges (build_graph nodes) = hint_edges nodes"
    by (simp add: build_graph_def graph_nodes_props)
qed
















lemma getOrderedSystems_resolved:
  "map_of (p_explicitOrder R) ph = None \<Longrightarrow>
   getOrderedSystems ph R =
     rev (snd (dfs_list (build_graph (phase_nodes ph R)) (map fst (build_graph (phase_nodes ph R))) ([], [])))"
  by (simp add: getOrderedSystems_def phase_nodes_def Let_def)

lemma new_Set_snoc: "new_Set (xs @ [x]) = jset_add x (new_Set xs)"
  by (simp add: new_Set_def)

lemma new_Set_first: "new_Set xs = rev (remdups (rev xs))"
proof (induction xs rule: rev_induct)
  case Nil
  show ?case by (simp add: new_Set_def)
next
  case (snoc x xs)
  have s: "set (rev (remdups (rev xs))) = set xs" by simp
  show ?case
    by (simp add: new_Set_snoc snoc.IH jset_add_def)
qed

lemma new_Set_distinct: "distinct xs \<Longrightarrow> new_Set xs = xs"
  by (simp add: new_Set_first distinct_remdups_id)

lemma fold_jset_add_new_Set: "fold jset_add xs [] = new_Set xs"
  by (simp add: new_Set_def)

lemma graph_nodes_order_aux:
  "map fst (fold (\<lambda>r. AList.update (system r) []) nodes g) =
   fold jset_add (map system nodes) (map fst g)"
proof (induction nodes arbitrary: g)
  case Nil
  show ?case by simp
next
  case (Cons r nodes)
  have "map fst (AList.update (system r) [] g) = jset_add (system r) (map fst g)"
    by (simp add: update_keys jset_add_def)
  then show ?case by (simp add: Cons.IH)
qed

lemma map_fst_map_entry: "map fst (AList.map_entry k f al) = map fst al"
  by (induction al) auto

lemma fold_map_entry_order:
  "map fst (fold (\<lambda>dep g. if P dep g then AList.map_entry (a dep) (b dep) g else g) deps g) =
   map fst g"
proof (induction deps arbitrary: g)
  case Nil
  show ?case by simp
next
  case (Cons d deps)
  show ?case by (simp add: Cons.IH map_fst_map_entry)
qed

lemma add_edges_order: "map fst (add_edges r g) = map fst g"
  by (simp add: add_edges_def Let_def fold_map_entry_order)

lemma fold_add_edges_order: "map fst (fold add_edges rs g) = map fst g"
  by (induction rs arbitrary: g) (simp_all add: add_edges_order)

lemma build_graph_order: "map fst (build_graph nodes) = new_Set (map system nodes)"
  by (simp add: build_graph_def fold_add_edges_order graph_nodes_def graph_nodes_order_aux
      new_Set_def)

lemma dfs_no_edges:
  assumes "\<And>u. succs g u = []"
  shows "dfs_list g ns (vis, vis) = (fold jset_add ns vis, fold jset_add ns vis)"
proof (induction ns arbitrary: vis)
  case Nil
  show ?case by simp
next
  case (Cons n ns)
  show ?case
  proof (cases "n \<in> set vis")
    case True
    then have "jset_add n vis = vis" by (simp add: jset_add_def)
    with True show ?thesis by (simp add: Cons.IH)
  next
    case False
    then have j: "jset_add n vis = vis @ [n]" by (simp add: jset_add_def)
    have "dfs_list g (n # ns) (vis, vis) = dfs_list g ns (vis @ [n], vis @ [n])"
      using False by (simp add: assms j Let_def)
    then show ?thesis by (simp add: Cons.IH j)
  qed
qed

lemma unconstrained_order:
  assumes "map_of (p_explicitOrder R) ph = None" and "hint_edges (phase_nodes ph R) = {}"
  shows "getOrderedSystems ph R = remdups (rev (map system (phase_nodes ph R)))"
proof -
  let ?g = "build_graph (phase_nodes ph R)"
  have "edges ?g = {}" using assms(2) by (simp add: build_graph_props)
  then have e: "succs ?g u = []" for u by (auto simp: edges_def)
  have k: "map fst ?g = new_Set (map system (phase_nodes ph R))" by (rule build_graph_order)
  have d: "distinct (new_Set (map system (phase_nodes ph R)))" by (simp add: new_Set_first)
  have "snd (dfs_list ?g (map fst ?g) ([], [])) = fold jset_add (map fst ?g) []"
    using dfs_no_edges[of ?g "map fst ?g" "[]"] e by simp
  also have "\<dots> = new_Set (map system (phase_nodes ph R))"
    by (simp only: k fold_jset_add_new_Set new_Set_distinct[OF d])
  finally have "getOrderedSystems ph R = rev (new_Set (map system (phase_nodes ph R)))"
    by (simp only: getOrderedSystems_resolved[OF assms(1)])
  then show ?thesis by (simp add: new_Set_first)
qed

lemma R_plain_eval:
  "R_plain =
     \<lparr>p_systems = [(''update'', [\<lparr>system = 1, before = [], after = []\<rparr>,
                                 \<lparr>system = 2, before = [], after = []\<rparr>,
                                 \<lparr>system = 3, before = [], after = []\<rparr>])],
      p_explicitOrder = []\<rparr>"
  by (simp add: R_plain_def R_empty_def after_register_def registerSystem_def new_Set_def Let_def)

lemma R_plain_nodes:
  "phase_nodes ''update'' R_plain =
     [\<lparr>system = 1, before = [], after = []\<rparr>, \<lparr>system = 2, before = [], after = []\<rparr>,
      \<lparr>system = 3, before = [], after = []\<rparr>]"
  "map_of (p_explicitOrder R_plain) ''update'' = None"
  by (simp_all add: phase_nodes_def R_plain_eval)

lemma R_plain_edges: "hint_edges (phase_nodes ''update'' R_plain) = {}"
  by (auto simp: R_plain_nodes hint_edges_def)

text \<open>
  Claim C8, as the specification states it: the order \<^verbatim>\<open>getOrderedSystems\<close> returns is stable
  with respect to the registration order.  Three systems registered in the order 1, 2, 3
  in one phase, without any hint and without an explicit order, have an empty and so
  acyclic hint graph; \<^verbatim>\<open>getOrderedSystems\<close> returns them in the order 3, 2, 1: the traversal
  appends each system to \<^verbatim>\<open>out\<close> in registration order and \<^verbatim>\<open>out\<close> is reversed at the end.
\<close>

theorem C8_registration_order_counterexample:
  "map system (phase_nodes ''update'' R_plain) = [1, 2, 3] \<and>
   map before (phase_nodes ''update'' R_plain) = [[], [], []] \<and>
   map after (phase_nodes ''update'' R_plain) = [[], [], []] \<and>
   map_of (p_explicitOrder R_plain) ''update'' = None \<and>
   acyclic (hint_edges (phase_nodes ''update'' R_plain)) \<and>
   getOrderedSystems ''update'' R_plain = [3, 2, 1]"
proof -
  have o: "getOrderedSystems ''update'' R_plain = [3, 2, 1]"
    using unconstrained_order[OF R_plain_nodes(2) R_plain_edges] by (simp add: R_plain_nodes(1))
  have ac: "acyclic (hint_edges (phase_nodes ''update'' R_plain))"
    unfolding R_plain_edges by (simp add: acyclic_def)
  have m: "map system (phase_nodes ''update'' R_plain) = [1, 2, 3]"
    "map before (phase_nodes ''update'' R_plain) = [[], [], []]"
    "map after (phase_nodes ''update'' R_plain) = [[], [], []]"
    by (simp_all add: R_plain_nodes(1))
  show ?thesis using m R_plain_nodes(2) ac o by (intro conjI) assumption+
qed












end
